theory Spec2Isabelle
  imports Complex_Main "HOL-Library.Word"
begin

section \<open>Bytes, errors and the struct module\<close>

text \<open>
  A file is the list of its bytes. Python exceptions are values of \<open>error\<close>;
  a function that may raise returns \<open>error + 'a\<close> with \<open>Inl\<close> the exception.
  \<open>NotImplementedError\<close> is raised at three places of the source; the constructor
  says which one and carries the offending value.
\<close>

type_synonym byte = "8 word"

datatype error =
    StructError
  | NotImplementedError_file_schema nat
  | NotImplementedError_base_schema nat
  | NotImplementedError_headbox int
  | KeyError string
  | UnicodeDecodeError
  | IndexError
  | ValueError
  | IOError
  | AssertionError
  | NameError

definition ebind :: "error + 'a \<Rightarrow> ('a \<Rightarrow> error + 'b) \<Rightarrow> error + 'b" where
  "ebind m f = (case m of Inl e \<Rightarrow> Inl e | Inr v \<Rightarrow> f v)"

text \<open>Python's \<open>bs[i:j]\<close> for \<open>0 \<le> i\<close>: out-of-range bounds are clipped, never an error.\<close>

definition slice :: "'a list \<Rightarrow> nat \<Rightarrow> nat \<Rightarrow> 'a list" where
  "slice bs i j = take (j - i) (drop i bs)"

text \<open>
  \<open>struct.unpack\<close> in native byte order (little-endian on the machines the reader
  runs on). The value of a byte string read as an unsigned little-endian number, and
  its reading as a two's-complement number of \<open>n\<close> bits.
\<close>

fun le_uint :: "byte list \<Rightarrow> int" where
  "le_uint [] = 0"
| "le_uint (b # bs) = uint b + 256 * le_uint bs"

definition to_signed :: "nat \<Rightarrow> int \<Rightarrow> int" where
  "to_signed n u = (if u \<ge> 2 ^ (n - 1) then u - 2 ^ n else u)"

text \<open>\<open>unpack(fmt, bs)\<close> raises struct.error unless \<open>bs\<close> has exactly the size of \<open>fmt\<close>.\<close>

definition unpack_B :: "byte list \<Rightarrow> error + nat" where
  "unpack_B bs = (if length bs = 1 then Inr (nat (le_uint bs)) else Inl StructError)"

definition unpack_b :: "byte list \<Rightarrow> error + int" where
  "unpack_b bs = (if length bs = 1 then Inr (to_signed 8 (le_uint bs)) else Inl StructError)"

definition unpack_H :: "byte list \<Rightarrow> error + nat" where
  "unpack_H bs = (if length bs = 2 then Inr (nat (le_uint bs)) else Inl StructError)"

definition unpack_h :: "byte list \<Rightarrow> error + int" where
  "unpack_h bs = (if length bs = 2 then Inr (to_signed 16 (le_uint bs)) else Inl StructError)"

definition unpack_i :: "byte list \<Rightarrow> error + int" where
  "unpack_i bs = (if length bs = 4 then Inr (to_signed 32 (le_uint bs)) else Inl StructError)"

text \<open>\<open>unpack('d', bs)\<close>: the eight bytes of a double, kept as its bit pattern.\<close>

definition unpack_d :: "byte list \<Rightarrow> error + int" where
  "unpack_d bs = (if length bs = 8 then Inr (le_uint bs) else Inl StructError)"

text \<open>A repeated format, \<open>unpack(c * n, bs)\<close>: \<open>n\<close> fields of \<open>w\<close> bytes each.\<close>

fun chunks :: "nat \<Rightarrow> nat \<Rightarrow> 'a list \<Rightarrow> 'a list list" where
  "chunks w 0 bs = []"
| "chunks w (Suc n) bs = take w bs # chunks w n (drop w bs)"

definition unpack_many :: "nat \<Rightarrow> (byte list \<Rightarrow> 'a) \<Rightarrow> nat \<Rightarrow> byte list \<Rightarrow> error + 'a list" where
  "unpack_many w conv n bs =
     (if length bs = w * n then Inr (map conv (chunks w n bs)) else Inl StructError)"

definition unpack_B_n :: "nat \<Rightarrow> byte list \<Rightarrow> error + byte list" where
  "unpack_B_n n bs = (if length bs = n then Inr bs else Inl StructError)"

definition unpack_c_n :: "nat \<Rightarrow> byte list \<Rightarrow> error + byte list" where
  "unpack_c_n n bs = (if length bs = n then Inr bs else Inl StructError)"

definition unpack_i_n :: "nat \<Rightarrow> byte list \<Rightarrow> error + int list" where
  "unpack_i_n n bs = unpack_many 4 (\<lambda>c. to_signed 32 (le_uint c)) n bs"

definition unpack_h_n :: "nat \<Rightarrow> byte list \<Rightarrow> error + int list" where
  "unpack_h_n n bs = unpack_many 2 (\<lambda>c. to_signed 16 (le_uint c)) n bs"

text \<open>
  \<open>_make_str\<close>: the characters up to the first null byte. Each byte is decoded on its
  own as UTF-8, which raises for a byte above 127.
\<close>

fun make_str :: "byte list \<Rightarrow> error + string" where
  "make_str [] = Inr []"
| "make_str (t # ts) =
     (if t = 0 then Inr []
      else if uint t \<ge> 128 then Inl UnicodeDecodeError
      else ebind (make_str ts) (\<lambda>s. Inr (char_of (uint t) # s)))"

section \<open>The header dictionary\<close>

text \<open>
  The dictionary \<open>hdr\<close> of \<open>_read_hdr_file\<close>. A key that only some schemas set is an
  option field: \<open>None\<close> is the missing key, and reading it raises KeyError.
  \<open>file_guid\<close> keeps the sixteen bytes that the source prints in hexadecimal,
  \<open>creation_time\<close> the seconds since the epoch, \<open>sample_freq\<close> the double's bits.
\<close>

record hdr =
  file_guid :: "byte list"
  file_schema :: nat
  base_schema :: nat
  creation_time :: int
  study_id :: int
  pat_last_name :: string
  pat_first_name :: string
  pat_middle_name :: string
  patient_id :: string
  sample_freq :: "int option"
  num_channels :: "int option"
  deltabits :: "int option"
  phys_chan :: "int list option"
  headbox_type :: "int list option"
  headbox_sn :: "int list option"
  headbox_sw_version :: "string option"
  dsp_hw_version :: "string option"
  dsp_sw_version :: "string option"
  discardbits :: "int option"
  shorted :: "int list option"
  frequency_factor :: "int list option"

definition getkey :: "string \<Rightarrow> 'a option \<Rightarrow> error + 'a" where
  "getkey k v = (case v of None \<Rightarrow> Inl (KeyError k) | Some x \<Rightarrow> Inr x)"

section \<open>The conversion factor\<close>

text \<open>
  \<open>_calculate_conversion\<close>. The source computes in double precision; the model
  computes the same expressions in the reals. \<open>pow2 d\<close> is Python's \<open>2 ** d\<close>,
  \<open>py_take xs n\<close> is \<open>xs[:n]\<close>.
\<close>

definition pow2 :: "int \<Rightarrow> real" where
  "pow2 d = (if d \<ge> 0 then 2 ^ nat d else 1 / 2 ^ nat (- d))"

definition py_take :: "'a list \<Rightarrow> int \<Rightarrow> 'a list" where
  "py_take xs n = (if n \<ge> 0 then take (nat n) xs else take (length xs - nat (- n)) xs)"

definition ones :: "int \<Rightarrow> error + real list" where
  "ones n = (if n < 0 then Inl ValueError else Inr (replicate (nat n) 1))"

definition scale :: "real \<Rightarrow> real list \<Rightarrow> real list" where
  "scale k xs = map (\<lambda>x. x * k) xs"

definition calculate_conversion :: "hdr \<Rightarrow> error + real list" where
  "calculate_conversion h =
     ebind (getkey ''discardbits'' (discardbits h)) (\<lambda>db.
     ebind (getkey ''num_channels'' (num_channels h)) (\<lambda>n_chan.
     ebind (getkey ''headbox_type'' (headbox_type h)) (\<lambda>hb.
     case hb of [] \<Rightarrow> Inl IndexError
     | t # _ \<Rightarrow>
       ebind
         (if t = 1 \<or> t = 3 then
            ebind (ones n_chan) (\<lambda>o1. Inr (scale (pow2 db) (scale (8711 / (221 - 0.5)) o1)))
          else if t = 4 then
            (let ch1 = scale (pow2 db) (scale (8711 / (221 - 0.5)) (replicate 24 1));
                 ch2 = scale (pow2 db) (scale ((5000000 / (210 - 0.5)) / 26) (replicate 4 1))
             in Inr (ch1 @ ch2))
          else if t = 21 then
            (let ch1 = scale (pow2 db) (scale (8711 / (221 - 0.5)) (replicate 128 1));
                 ch2 = scale (pow2 db) (scale (1 / 26) (replicate 2 1));
                 ch3 = scale (pow2 db) (scale (8711 / (221 - 0.5)) (replicate 126 1))
             in Inr (ch1 @ ch2 @ ch3))
          else if t = 22 then
            (let ch1 = scale (pow2 db) (scale (8711 / (221 - 0.5)) (replicate 32 1));
                 ch2 = scale (pow2 db) (scale ((10800000 / 65536) / 26) (replicate 8 1));
                 ch3 = scale (pow2 db) (scale (1 / 26) (replicate 2 1));
                 ch4 = scale (pow2 db) (scale ((10800000 / 65536) / 26) (replicate 1 1))
             in Inr (ch1 @ ch2 @ ch3 @ ch4))
          else Inl (NotImplementedError_headbox t))
         (\<lambda>factor. Inr (scale (1 / 1000000) (py_take factor n_chan))))))"

section \<open>Reading a header\<close>

text \<open>
  A file opened for reading is its bytes and a position. \<open>rd f p n unpack k\<close> is
  \<open>unpack(fmt, f.read(n))\<close> at position \<open>p\<close>, continued by \<open>k\<close> with the value and
  the new position; \<open>f.read\<close> returns fewer bytes at the end of the file, and then
  \<open>unpack\<close> raises.
\<close>

definition rd :: "byte list \<Rightarrow> nat \<Rightarrow> nat \<Rightarrow> (byte list \<Rightarrow> error + 'a) \<Rightarrow>
    ('a \<Rightarrow> nat \<Rightarrow> error + 'b) \<Rightarrow> error + 'b" where
  "rd f p n unpack k =
     (let bs = slice f p (p + n) in ebind (unpack bs) (\<lambda>v. k v (p + length bs)))"

definition unpack_str :: "nat \<Rightarrow> byte list \<Rightarrow> error + string" where
  "unpack_str n bs = ebind (unpack_c_n n bs) make_str"

text \<open>
  \<open>hdr['phys_chan']\<close>: a negative count makes the format empty and \<open>f.read\<close> read the
  rest of the file.
\<close>

definition read_phys_chan :: "byte list \<Rightarrow> nat \<Rightarrow> int \<Rightarrow> error + int list" where
  "read_phys_chan f p n =
     (if n \<ge> 0 then unpack_i_n (nat n) (slice f p (p + nat n * 4))
      else unpack_i_n 0 (drop p f))"

text \<open>The keys of schema 8 and above, read after \<open>discardbits\<close>.\<close>

definition read_hdr_8 :: "byte list \<Rightarrow> nat \<Rightarrow> hdr \<Rightarrow> error + hdr" where
  "read_hdr_8 f p h =
     (if file_schema h \<ge> 8 then
        rd f p 2048 (unpack_h_n 1024) (\<lambda>sh p.
        rd f p 2048 (unpack_h_n 1024) (\<lambda>ff p.
        Inr (h\<lparr>shorted := Some sh, frequency_factor := Some ff\<rparr>)))
      else Inr h)"

text \<open>The keys of schema 7 and above, read after the common block of 352 bytes.\<close>

definition read_hdr_7 :: "byte list \<Rightarrow> nat \<Rightarrow> hdr \<Rightarrow> error + hdr" where
  "read_hdr_7 f p h =
     (if file_schema h \<ge> 7 then
        rd f p 8 unpack_d (\<lambda>sf p.
        rd f p 4 unpack_i (\<lambda>nc p.
        rd f p 4 unpack_i (\<lambda>dbits p.
        ebind (read_phys_chan f p nc) (\<lambda>pc.
        rd f 4464 16 (unpack_i_n 4) (\<lambda>ht p.
        rd f p 16 (unpack_i_n 4) (\<lambda>hs p.
        rd f p 40 (unpack_str 40) (\<lambda>sw p.
        rd f p 10 (unpack_str 10) (\<lambda>dhw p.
        rd f p 10 (unpack_str 10) (\<lambda>dsw p.
        rd f p 4 unpack_i (\<lambda>db p.
        read_hdr_8 f p
          (h\<lparr>sample_freq := Some sf, num_channels := Some nc, deltabits := Some dbits,
             phys_chan := Some pc, headbox_type := Some ht, headbox_sn := Some hs,
             headbox_sw_version := Some sw, dsp_hw_version := Some dhw,
             dsp_sw_version := Some dsw, discardbits := Some db\<rparr>)))))))))))
      else read_hdr_8 f p h)"

definition read_hdr_file :: "byte list \<Rightarrow> error + hdr" where
  "read_hdr_file f =
     rd f 0 16 Inr (\<lambda>guid p.
     rd f p 2 unpack_H (\<lambda>schema p.
     if schema \<notin> {1, 7, 8, 9} then Inl (NotImplementedError_file_schema schema) else
     rd f p 2 unpack_H (\<lambda>base p.
     if base \<noteq> 1 then Inl (NotImplementedError_base_schema base) else
     rd f p 4 unpack_i (\<lambda>ctime p.
     rd f p 4 unpack_i (\<lambda>pid p.
     rd f p 4 unpack_i (\<lambda>sid p.
     rd f p 80 (unpack_str 80) (\<lambda>lastn p.
     rd f p 80 (unpack_str 80) (\<lambda>firstn p.
     rd f p 80 (unpack_str 80) (\<lambda>middlen p.
     rd f p 80 (unpack_str 80) (\<lambda>pid_str p.
     if p \<noteq> 352 then Inl AssertionError else
     read_hdr_7 f p
       \<lparr>file_guid = guid, file_schema = schema, base_schema = base, creation_time = ctime,
        study_id = sid, pat_last_name = lastn, pat_first_name = firstn,
        pat_middle_name = middlen, patient_id = pid_str,
        sample_freq = None, num_channels = None, deltabits = None, phys_chan = None,
        headbox_type = None, headbox_sn = None, headbox_sw_version = None,
        dsp_hw_version = None, dsp_sw_version = None, discardbits = None,
        shorted = None, frequency_factor = None\<rparr>))))))))))"

section \<open>The delta decoder\<close>

text \<open>
  \<open>output\<close> is the matrix \<open>output[channel][sample]\<close>, a list of rows. The source keeps
  doubles; every value it stores is an integer, and the model keeps integers (a double
  is exact up to \<open>2 ^ 53\<close>).
\<close>

definition zeros :: "nat \<Rightarrow> nat \<Rightarrow> int list list" where
  "zeros r c = replicate r (replicate c 0)"

definition mat_set :: "'a list list \<Rightarrow> nat \<Rightarrow> nat \<Rightarrow> 'a \<Rightarrow> 'a list list" where
  "mat_set m r c v = m[r := (m ! r)[c := v]]"

text \<open>The column \<open>sam - 1\<close> of an axis of length \<open>n_samples\<close>: Python's \<open>-1\<close> is the last.\<close>

definition prev_col :: "nat \<Rightarrow> nat \<Rightarrow> nat" where
  "prev_col n_samples sam = (if sam = 0 then n_samples - 1 else sam - 1)"

text \<open>Where the samples start and the escape value, by schema.\<close>

definition erd_start :: "nat \<Rightarrow> nat" where
  "erd_start schema = (if schema = 7 then 4560 else 8656)"

definition abs_delta :: "nat \<Rightarrow> byte list" where
  "abs_delta schema = (if schema = 7 then [0x80] else [0xFF, 0xFF])"

text \<open>
  The delta mask of one sample, a character \<open>'1'\<close> being \<open>True\<close>: all zero for schema 7,
  and for schemas 8 and 9 the bits of \<open>l_deltamask\<close> bytes, least significant first.
\<close>

definition bits_lsb :: "byte \<Rightarrow> bool list" where
  "bits_lsb x = map (bit x) [0..<8]"

definition read_deltamask :: "nat \<Rightarrow> nat \<Rightarrow> byte list \<Rightarrow> nat \<Rightarrow> error + (bool list \<times> nat)" where
  "read_deltamask schema n_chan filebytes i =
     (if schema = 7 then Inr (replicate n_chan False, i)
      else
        (let l_deltamask = (n_chan + 7) div 8 in
         ebind (unpack_B_n l_deltamask (slice filebytes i (i + l_deltamask))) (\<lambda>byte_deltamask.
         Inr (concat (map bits_lsb byte_deltamask), i + l_deltamask))))"

text \<open>
  The loop over the channels of one sample: a slot of two bytes or one, either the
  escape value (the channel is marked in \<open>absvalue\<close>) or a delta added to the value of
  the previous column.
\<close>

fun read_deltas :: "byte list \<Rightarrow> byte list \<Rightarrow> nat \<Rightarrow> nat \<Rightarrow> bool list \<Rightarrow> nat \<Rightarrow> nat \<Rightarrow>
    int list list \<Rightarrow> bool list \<Rightarrow> error + (nat \<times> int list list \<times> bool list)" where
  "read_deltas filebytes esc n_samples sam [] i_c i output absvalue = Inr (i, output, absvalue)"
| "read_deltas filebytes esc n_samples sam (m # ms) i_c i output absvalue =
     (let val = (if m then slice filebytes i (i + 2) else slice filebytes i (i + 1));
          i' = (if m then i + 2 else i + 1)
      in if val = esc then
           read_deltas filebytes esc n_samples sam ms (Suc i_c) i' output (absvalue[i_c := True])
         else
           (case (if m then unpack_h val else unpack_b val) of
              Inl e \<Rightarrow> Inl e
            | Inr d \<Rightarrow>
                read_deltas filebytes esc n_samples sam ms (Suc i_c) i'
                  (mat_set output i_c sam (output ! i_c ! prev_col n_samples sam + d)) absvalue))"

text \<open>The loop over \<open>absvalue\<close>: four bytes for every marked channel.\<close>

fun read_abs :: "byte list \<Rightarrow> nat \<Rightarrow> bool list \<Rightarrow> nat \<Rightarrow> nat \<Rightarrow> int list list \<Rightarrow>
    error + (nat \<times> int list list)" where
  "read_abs filebytes sam [] i_c i output = Inr (i, output)"
| "read_abs filebytes sam (to_read # rest) i_c i output =
     (if to_read then
        (case unpack_i (slice filebytes i (i + 4)) of
           Inl e \<Rightarrow> Inl e
         | Inr v \<Rightarrow> read_abs filebytes sam rest (Suc i_c) (i + 4) (mat_set output i_c sam v))
      else read_abs filebytes sam rest (Suc i_c) i output)"

text \<open>One sample after its event byte: mask, deltas, absolute values.\<close>

definition read_sample :: "nat \<Rightarrow> nat \<Rightarrow> byte list \<Rightarrow> nat \<Rightarrow> nat \<Rightarrow> nat \<Rightarrow> int list list \<Rightarrow>
    error + (nat \<times> int list list)" where
  "read_sample schema n_chan filebytes n_samples sam i output =
     ebind (read_deltamask schema n_chan filebytes i) (\<lambda>(deltamask, i).
     ebind (read_deltas filebytes (abs_delta schema) n_samples sam (take n_chan deltamask) 0 i
              output (replicate n_chan False)) (\<lambda>(i, output, absvalue).
     read_abs filebytes sam absvalue 0 i output))"

text \<open>
  The loop over the samples. An empty event byte (the end of the file) leaves the
  loop. For any other event byte the source asserts that it is 0 or 1 and, when the
  assertion fails, builds an exception that it does not raise: the value of the event
  byte changes nothing.
\<close>

function erd_samples :: "nat \<Rightarrow> nat \<Rightarrow> byte list \<Rightarrow> nat \<Rightarrow> nat \<Rightarrow> nat \<Rightarrow> int list list \<Rightarrow>
    error + int list list" where
  "erd_samples schema n_chan filebytes n_samples sam i output =
     (if sam \<ge> n_samples then Inr output
      else
        (let eventbite = slice filebytes i (i + 1) in
         if eventbite = [] then Inr output
         else
           (case read_sample schema n_chan filebytes n_samples sam (i + 1) output of
              Inl e \<Rightarrow> Inl e
            | Inr (i', output') \<Rightarrow>
                erd_samples schema n_chan filebytes n_samples (Suc sam) i' output')))"
  by pat_completeness auto
termination
  by (relation "measure (\<lambda>(schema, n_chan, filebytes, n_samples, sam, i, output). n_samples - sam)")
     auto

text \<open>
  \<open>_read_erd\<close> up to the end of its loop: the matrix \<open>output\<close>. \<open>zeros\<close> refuses a
  negative dimension; with a schema other than 7, 8 and 9 the cursor \<open>i\<close> is unbound
  when the first sample reads it.
\<close>

definition erd_output :: "hdr \<Rightarrow> byte list \<Rightarrow> int \<Rightarrow> error + int list list" where
  "erd_output h filebytes n_samples =
     ebind (getkey ''num_channels'' (num_channels h)) (\<lambda>n_chan.
     if n_chan < 0 \<or> n_samples < 0 then Inl ValueError
     else if n_samples = 0 then Inr (zeros (nat n_chan) 0)
     else if file_schema h \<notin> {7, 8, 9} then Inl NameError
     else erd_samples (file_schema h) (nat n_chan) filebytes (nat n_samples) 0
            (erd_start (file_schema h)) (zeros (nat n_chan) (nat n_samples)))"

text \<open>
  \<open>expand_dims(factor, 1) * output\<close>: row \<open>c\<close> times \<open>factor[c]\<close>, with numpy's
  broadcasting of an axis of length one.
\<close>

definition apply_factor :: "real list \<Rightarrow> int list list \<Rightarrow> error + real list list" where
  "apply_factor factor output =
     (if length factor = length output then
        Inr (map2 (\<lambda>k row. map (\<lambda>v. k * real_of_int v) row) factor output)
      else if length factor = 1 then
        Inr (map (\<lambda>row. map (\<lambda>v. hd factor * real_of_int v) row) output)
      else if length output = 1 then
        Inr (map (\<lambda>k. map (\<lambda>v. k * real_of_int v) (hd output)) factor)
      else Inl ValueError)"

definition read_erd :: "byte list \<Rightarrow> int \<Rightarrow> error + real list list" where
  "read_erd erd_file n_samples =
     ebind (read_hdr_file erd_file) (\<lambda>h.
     ebind (erd_output h erd_file n_samples) (\<lambda>output.
     ebind (calculate_conversion h) (\<lambda>factor.
     apply_factor factor output)))"

section \<open>The segment table of contents\<close>

record stc_hdr =
  next_segment :: int
  final :: int
  padding :: "int list"

record stamp =
  segment_name :: string
  start_stamp :: int
  end_stamp :: int
  sample_num :: int
  sample_span :: int

text \<open>One entry of the table, read at position \<open>p\<close>: the entry and the position after it.\<close>

definition read_stamp :: "byte list \<Rightarrow> nat \<Rightarrow> error + (stamp \<times> nat)" where
  "read_stamp f p =
     rd f p 256 (unpack_str 256) (\<lambda>name p.
     rd f p 4 unpack_i (\<lambda>st p.
     rd f p 4 unpack_i (\<lambda>en p.
     rd f p 4 unpack_i (\<lambda>num p.
     rd f p 4 unpack_i (\<lambda>span p.
     Inr (\<lparr>segment_name = name, start_stamp = st, end_stamp = en, sample_num = num,
           sample_span = span\<rparr>, p))))))"

lemma rd_Inr:
  assumes "rd f p n unpack k = Inr r"
  obtains v where "unpack (slice f p (p + n)) = Inr v"
    and "k v (p + length (slice f p (p + n))) = Inr r"
  using assms by (auto simp: rd_def ebind_def Let_def split: sum.splits)

lemma unpack_i_length: "unpack_i bs = Inr v \<Longrightarrow> length bs = 4"
  by (simp add: unpack_i_def split: if_splits)

lemma unpack_str_length: "unpack_str n bs = Inr v \<Longrightarrow> length bs = n"
  by (auto simp: unpack_str_def unpack_c_n_def ebind_def split: if_splits sum.splits)

lemma slice_length_full: "length (slice f p (p + n)) = n \<Longrightarrow> n > 0 \<Longrightarrow> p + n \<le> length f"
  by (auto simp: slice_def)

lemma read_stamp_advances:
  assumes "read_stamp f p = Inr (s, p')"
  shows "p' = p + 272 \<and> p' \<le> length f"
proof -
  from assms obtain name where n: "unpack_str 256 (slice f p (p + 256)) = Inr name"
    and r1: "rd f (p + length (slice f p (p + 256))) 4 unpack_i (\<lambda>st p.
       rd f p 4 unpack_i (\<lambda>en p.
       rd f p 4 unpack_i (\<lambda>num p.
       rd f p 4 unpack_i (\<lambda>span p.
       Inr (\<lparr>segment_name = name, start_stamp = st, end_stamp = en, sample_num = num,
             sample_span = span\<rparr>, p))))) = Inr (s, p')"
    unfolding read_stamp_def by (erule rd_Inr)
  have l0: "length (slice f p (p + 256)) = 256" using n by (rule unpack_str_length)
  from r1 [unfolded l0] obtain st where n1: "unpack_i (slice f (p + 256) (p + 256 + 4)) = Inr st"
    and r2: "rd f (p + 256 + length (slice f (p + 256) (p + 256 + 4))) 4 unpack_i (\<lambda>en p.
       rd f p 4 unpack_i (\<lambda>num p.
       rd f p 4 unpack_i (\<lambda>span p.
       Inr (\<lparr>segment_name = name, start_stamp = st, end_stamp = en, sample_num = num,
             sample_span = span\<rparr>, p)))) = Inr (s, p')"
    by (erule rd_Inr)
  have l1: "length (slice f (p + 256) (p + 256 + 4)) = 4" using n1 by (rule unpack_i_length)
  from r2 [unfolded l1] obtain en where n2: "unpack_i (slice f (p + 256 + 4) (p + 256 + 4 + 4)) = Inr en"
    and r3: "rd f (p + 256 + 4 + length (slice f (p + 256 + 4) (p + 256 + 4 + 4))) 4 unpack_i (\<lambda>num p.
       rd f p 4 unpack_i (\<lambda>span p.
       Inr (\<lparr>segment_name = name, start_stamp = st, end_stamp = en, sample_num = num,
             sample_span = span\<rparr>, p))) = Inr (s, p')"
    by (erule rd_Inr)
  have l2: "length (slice f (p + 256 + 4) (p + 256 + 4 + 4)) = 4" using n2 by (rule unpack_i_length)
  from r3 [unfolded l2] obtain num where
    n3: "unpack_i (slice f (p + 256 + 4 + 4) (p + 256 + 4 + 4 + 4)) = Inr num"
    and r4: "rd f (p + 256 + 4 + 4 + length (slice f (p + 256 + 4 + 4) (p + 256 + 4 + 4 + 4))) 4
       unpack_i (\<lambda>span p.
       Inr (\<lparr>segment_name = name, start_stamp = st, end_stamp = en, sample_num = num,
             sample_span = span\<rparr>, p)) = Inr (s, p')"
    by (erule rd_Inr)
  have l3: "length (slice f (p + 256 + 4 + 4) (p + 256 + 4 + 4 + 4)) = 4"
    using n3 by (rule unpack_i_length)
  from r4 [unfolded l3] obtain span where
    n4: "unpack_i (slice f (p + 256 + 4 + 4 + 4) (p + 256 + 4 + 4 + 4 + 4)) = Inr span"
    and r5: "Inr (\<lparr>segment_name = name, start_stamp = st, end_stamp = en, sample_num = num,
             sample_span = span\<rparr>,
             p + 256 + 4 + 4 + 4 + length (slice f (p + 256 + 4 + 4 + 4) (p + 256 + 4 + 4 + 4 + 4)))
           = (Inr (s, p') :: error + (stamp \<times> nat))"
    by (erule rd_Inr)
  have l4: "length (slice f (p + 256 + 4 + 4 + 4) (p + 256 + 4 + 4 + 4 + 4)) = 4"
    using n4 by (rule unpack_i_length)
  from r5 l4 have "p' = p + 272" by simp
  moreover from slice_length_full [OF l4] have "p + 272 \<le> length f" by simp
  ultimately show ?thesis by simp
qed

text \<open>
  The loop of \<open>_read_stc\<close>: entries are read until the position is the end of the
  file. An entry cut short by the end of the file makes \<open>unpack\<close> raise.
\<close>

function read_stamps :: "byte list \<Rightarrow> nat \<Rightarrow> error + stamp list" where
  "read_stamps f p =
     (if p = length f then Inr []
      else
        (case read_stamp f p of
           Inl e \<Rightarrow> Inl e
         | Inr (s, p') \<Rightarrow>
             (case read_stamps f p' of Inl e \<Rightarrow> Inl e | Inr all_stamp \<Rightarrow> Inr (s # all_stamp))))"
  by pat_completeness auto
termination
proof (relation "measure (\<lambda>(f, p). length f - p)")
  show "wf (measure (\<lambda>(f, p). length f - p))" by simp
next
  fix f :: "byte list" and p :: nat and x2 :: "stamp \<times> nat" and x :: stamp and y :: nat
  assume "p \<noteq> length f" and "read_stamp f p = Inr x2" and "(x, y) = x2"
  then have "read_stamp f p = Inr (x, y)" by simp
  from read_stamp_advances [OF this] have "y = p + 272" and "y \<le> length f" by simp_all
  then show "((f, y), (f, p)) \<in> measure (\<lambda>(f, p). length f - p)" by simp
qed

definition read_stc :: "byte list \<Rightarrow> error + (stc_hdr \<times> stamp list)" where
  "read_stc f =
     rd f 352 4 unpack_i (\<lambda>ns p.
     rd f p 4 unpack_i (\<lambda>fin p.
     rd f p 48 (unpack_i_n 12) (\<lambda>pad p.
     ebind (read_stamps f p) (\<lambda>all_stamp.
     Inr (\<lparr>next_segment = ns, final = fin, padding = pad\<rparr>, all_stamp)))))"

section \<open>Reading a range of samples\<close>

text \<open>
  The files of a recording are a map from a path to the bytes of the file; opening a
  path that is not there raises IOError. \<open>_read_erd\<close> on a path reads the file twice
  (its header, then all its bytes).
\<close>

definition open_file :: "(string \<rightharpoonup> byte list) \<Rightarrow> string \<Rightarrow> error + byte list" where
  "open_file files path = (case files path of None \<Rightarrow> Inl IOError | Some f \<Rightarrow> Inr f)"

definition read_erd_path :: "(string \<rightharpoonup> byte list) \<Rightarrow> string \<Rightarrow> int \<Rightarrow> error + real list list" where
  "read_erd_path files path n_samples = ebind (open_file files path) (\<lambda>f. read_erd f n_samples)"

text \<open>numpy's \<open>cumsum\<close>, and \<open>where(cond)[0][-1]\<close>: the last index whose entry satisfies \<open>P\<close>.\<close>

fun cumsum_from :: "int \<Rightarrow> int list \<Rightarrow> int list" where
  "cumsum_from a [] = []"
| "cumsum_from a (x # xs) = (a + x) # cumsum_from (a + x) xs"

definition cumsum :: "int list \<Rightarrow> int list" where
  "cumsum xs = cumsum_from 0 xs"

definition last_where :: "(int \<Rightarrow> bool) \<Rightarrow> int list \<Rightarrow> error + nat" where
  "last_where P xs =
     (case filter (\<lambda>k. P (xs ! k)) [0..<length xs] of
        [] \<Rightarrow> Inl IndexError
      | k # ks \<Rightarrow> Inr (last (k # ks)))"

text \<open>
  Python's slices with integer bounds: a negative bound counts from the end, and
  both are clipped to the axis. \<open>py_slice xs a b\<close> is \<open>xs[a:b]\<close>.
\<close>

definition slice_bound :: "nat \<Rightarrow> int \<Rightarrow> nat" where
  "slice_bound n k = (if k < 0 then nat (max 0 (int n + k)) else min n (nat k))"

definition py_slice :: "'a list \<Rightarrow> int \<Rightarrow> int \<Rightarrow> 'a list" where
  "py_slice xs a b =
     (let s = slice_bound (length xs) a; e = slice_bound (length xs) b
      in take (e - s) (drop s xs))"

text \<open>\<open>dat_rec[chan, a:b]\<close>: the rows named by \<open>chan\<close> (a negative index counts from the
  last row, an index outside the matrix raises), each cut to the columns \<open>a:b\<close>.\<close>

fun select_rows :: "'a list list \<Rightarrow> int list \<Rightarrow> error + 'a list list" where
  "select_rows m [] = Inr []"
| "select_rows m (c # cs) =
     (let n = int (length m); j = (if c < 0 then n + c else c)
      in if 0 \<le> j \<and> j < n then
           (case select_rows m cs of Inl e \<Rightarrow> Inl e | Inr rows \<Rightarrow> Inr ((m ! nat j) # rows))
         else Inl IndexError)"

definition index_chan_slice :: "'a list list \<Rightarrow> int list \<Rightarrow> int \<Rightarrow> int \<Rightarrow> error + 'a list list" where
  "index_chan_slice m chan a b =
     ebind (select_rows m chan) (\<lambda>rows. Inr (map (\<lambda>row. py_slice row a b) rows))"

text \<open>
  \<open>dat[:, d1:d2] = src\<close> for a matrix \<open>dat\<close> of \<open>width\<close> columns and a source with as
  many rows: the source must be as wide as the target columns, or one column wide
  (numpy then repeats it); anything else raises ValueError. \<open>src_width\<close> is the width
  the column slice of the source has, also when the source has no row.
\<close>

definition assign_cols :: "nat \<Rightarrow> 'a list list \<Rightarrow> int \<Rightarrow> int \<Rightarrow> nat \<Rightarrow> 'a list list \<Rightarrow>
    error + 'a list list" where
  "assign_cols width dat d1 d2 src_width src =
     (let s = slice_bound width d1; e = slice_bound width d2; w = e - s
      in if src_width = w then
           Inr (map2 (\<lambda>row new. take s row @ new @ drop (s + w) row) dat src)
         else if src_width = 1 then
           Inr (map2 (\<lambda>row new. take s row @ replicate w (hd new) @ drop (s + w) row) dat src)
         else Inl ValueError)"

text \<open>
  The body of the loop of \<open>return_dat\<close> over the segments \<open>begrec .. endrec\<close>, with the
  loop's variables \<open>d1\<close> and \<open>dat\<close>. A segment other than the last is read up to
  \<open>n_sam_rec[rec] + 1\<close> samples, as the source has it.
\<close>

fun dat_loop :: "(string \<rightharpoonup> byte list) \<Rightarrow> string list \<Rightarrow> int list \<Rightarrow> int list \<Rightarrow> int \<Rightarrow> int \<Rightarrow>
    nat \<Rightarrow> nat \<Rightarrow> nat list \<Rightarrow> int \<Rightarrow> real list list \<Rightarrow> error + real list list" where
  "dat_loop files all_erd n_sam_rec chan begsam endsam begrec endrec [] d1 dat = Inr dat"
| "dat_loop files all_erd n_sam_rec chan begsam endsam begrec endrec (rec # recs) d1 dat =
     (let begpos_rec = (if rec = begrec then begsam - n_sam_rec ! rec else 0);
          endpos_rec = (if rec = endrec then endsam - n_sam_rec ! rec else n_sam_rec ! rec + 1);
          d2 = endpos_rec - begpos_rec + d1
      in if rec \<ge> length all_erd then Inl IndexError
         else
           (case read_erd_path files (all_erd ! rec @ ''.erd'') endpos_rec of
              Inl e \<Rightarrow> Inl e
            | Inr dat_rec \<Rightarrow>
                (case index_chan_slice dat_rec chan begpos_rec endpos_rec of
                   Inl e \<Rightarrow> Inl e
                 | Inr src \<Rightarrow>
                     (case assign_cols (nat (endsam - begsam)) dat d1 d2
                             (slice_bound (nat endpos_rec) endpos_rec
                                - slice_bound (nat endpos_rec) begpos_rec) src of
                        Inl e \<Rightarrow> Inl e
                      | Inr dat' \<Rightarrow>
                          dat_loop files all_erd n_sam_rec chan begsam endsam begrec endrec
                            recs d2 dat'))))"

definition return_dat :: "(string \<rightharpoonup> byte list) \<Rightarrow> string \<Rightarrow> int list \<Rightarrow> int \<Rightarrow> int \<Rightarrow>
    error + real list list" where
  "return_dat files basename chan begsam endsam =
     ebind (open_file files (basename @ ''.stc'')) (\<lambda>f.
     ebind (read_stc f) (\<lambda>(stc, all_stamp).
     let all_erd = map segment_name all_stamp;
         all_samples = map sample_span all_stamp;
         n_sam_rec = 0 # cumsum all_samples
     in
     ebind (last_where (\<lambda>x. x \<le> begsam) n_sam_rec) (\<lambda>begrec.
     ebind (last_where (\<lambda>x. x < endsam) n_sam_rec) (\<lambda>endrec.
     if endsam - begsam < 0 then Inl ValueError
     else dat_loop files all_erd n_sam_rec chan begsam endsam begrec endrec
            [begrec..<endrec + 1] 0
            (replicate (length chan) (replicate (nat (endsam - begsam)) 0))))))"

section \<open>Example inputs\<close>

text \<open>
  The dictionary that \<open>_read_hdr_file\<close> returns for a file of the given schema,
  channel count, first headbox type and discard bits whose other fields are all zero
  bytes.
\<close>

definition example_hdr :: "nat \<Rightarrow> nat \<Rightarrow> int \<Rightarrow> int \<Rightarrow> hdr" where
  "example_hdr schema n_chan hb db =
     \<lparr>file_guid = replicate 16 0, file_schema = schema, base_schema = 1, creation_time = 0,
      study_id = 0, pat_last_name = [], pat_first_name = [], pat_middle_name = [],
      patient_id = [], sample_freq = Some 0, num_channels = Some (int n_chan),
      deltabits = Some 0, phys_chan = Some (replicate n_chan 0),
      headbox_type = Some [hb, 0, 0, 0], headbox_sn = Some [0, 0, 0, 0],
      headbox_sw_version = Some [], dsp_hw_version = Some [], dsp_sw_version = Some [],
      discardbits = Some db,
      shorted = (if schema \<ge> 8 then Some (replicate 1024 0) else None),
      frequency_factor = (if schema \<ge> 8 then Some (replicate 1024 0) else None)\<rparr>"

section \<open>A reference encoder\<close>

text \<open>
  The encoder that matches the decoder, for the statements about streams of known
  content. A sample is its trigger flag and one \<open>item\<close> per channel: a delta in the
  narrow encoding (one byte), a delta in the wide encoding (two bytes, schemas 8 and 9),
  or an absolute value (the escape value in the channel's slot, four bytes after the
  slots). \<open>le_bytes n v\<close> are the \<open>n\<close> little-endian bytes of \<open>v\<close> in two's complement.
  The mask of schemas 8 and 9 has one bit per channel, least significant first, the
  last byte filled with ones. \<open>valid_item\<close> says that the value fits its encoding and
  that a delta is not the escape value of the schema. \<open>next_value\<close> is what a sample's
  item makes of the previous value of the channel.

  \<open>delta_store\<close>, \<open>mark_abs\<close> and \<open>abs_store\<close> are what the two loops over the channels
  of one sample do to \<open>output\<close> and \<open>absvalue\<close>, as functions of the items;
  \<open>store_sample\<close> is their effect row by row, \<open>store_all\<close> and \<open>row_all\<close> the effect of
  a sequence of samples on the matrix and on one row.
\<close>

datatype item = Narrow int | Wide int | Absolute int

fun le_bytes :: "nat \<Rightarrow> int \<Rightarrow> byte list" where
  "le_bytes 0 v = []"
| "le_bytes (Suc n) v = word_of_int v # le_bytes n (v div 256)"

definition slot_bytes :: "nat \<Rightarrow> item \<Rightarrow> byte list" where
  "slot_bytes schema it =
     (case it of Narrow d \<Rightarrow> le_bytes 1 d | Wide d \<Rightarrow> le_bytes 2 d | Absolute v \<Rightarrow> abs_delta schema)"

definition mask_bit :: "nat \<Rightarrow> item \<Rightarrow> bool" where
  "mask_bit schema it = (case it of Narrow d \<Rightarrow> False | Wide d \<Rightarrow> True | Absolute v \<Rightarrow> schema \<noteq> 7)"

definition abs_bytes :: "item \<Rightarrow> byte list" where
  "abs_bytes it = (case it of Absolute v \<Rightarrow> le_bytes 4 v | _ \<Rightarrow> [])"

definition is_abs :: "item \<Rightarrow> bool" where
  "is_abs it = (case it of Absolute v \<Rightarrow> True | _ \<Rightarrow> False)"

definition byte_of_bits :: "bool list \<Rightarrow> byte" where
  "byte_of_bits bs = horner_sum of_bool 2 bs"

function mask_bytes :: "bool list \<Rightarrow> byte list" where
  "mask_bytes bits =
     (if bits = [] then []
      else byte_of_bits (take 8 (bits @ replicate 7 True)) # mask_bytes (drop 8 bits))"
  by pat_completeness auto

termination
  by (relation "measure length") auto

definition valid_item :: "nat \<Rightarrow> item \<Rightarrow> bool" where
  "valid_item schema it =
     (case it of
        Narrow d \<Rightarrow> - 128 \<le> d \<and> d \<le> 127 \<and> (schema = 7 \<longrightarrow> d \<noteq> - 128)
      | Wide d \<Rightarrow> schema \<noteq> 7 \<and> - 32768 \<le> d \<and> d \<le> 32767 \<and> d \<noteq> - 1
      | Absolute v \<Rightarrow> - 2147483648 \<le> v \<and> v \<le> 2147483647)"

definition next_value :: "int \<Rightarrow> item \<Rightarrow> int" where
  "next_value prev it = (case it of Narrow d \<Rightarrow> prev + d | Wide d \<Rightarrow> prev + d | Absolute v \<Rightarrow> v)"

definition encode_sample :: "nat \<Rightarrow> bool \<times> item list \<Rightarrow> byte list" where
  "encode_sample schema s =
     (if fst s then 1 else 0)
     # (if schema = 7 then [] else mask_bytes (map (mask_bit schema) (snd s)))
     @ concat (map (slot_bytes schema) (snd s))
     @ concat (map abs_bytes (snd s))"

definition encode :: "nat \<Rightarrow> (bool \<times> item list) list \<Rightarrow> byte list" where
  "encode schema samples = concat (map (encode_sample schema) samples)"

definition valid_sample :: "nat \<Rightarrow> nat \<Rightarrow> bool \<times> item list \<Rightarrow> bool" where
  "valid_sample schema n_chan s = (length (snd s) = n_chan \<and> list_all (valid_item schema) (snd s))"

fun delta_store :: "nat \<Rightarrow> nat \<Rightarrow> nat \<Rightarrow> item list \<Rightarrow> int list list \<Rightarrow> int list list" where
  "delta_store ns sam ic [] out = out"
| "delta_store ns sam ic (it # its) out =
     delta_store ns sam (Suc ic) its
       (if is_abs it then out
        else mat_set out ic sam (next_value (out ! ic ! prev_col ns sam) it))"

fun mark_abs :: "nat \<Rightarrow> item list \<Rightarrow> bool list \<Rightarrow> bool list" where
  "mark_abs ic [] av = av"
| "mark_abs ic (it # its) av = mark_abs (Suc ic) its (if is_abs it then av[ic := True] else av)"

fun abs_store :: "nat \<Rightarrow> nat \<Rightarrow> item list \<Rightarrow> int list list \<Rightarrow> int list list" where
  "abs_store sam ic [] out = out"
| "abs_store sam ic (it # its) out =
     abs_store sam (Suc ic) its
       (case it of Absolute v \<Rightarrow> mat_set out ic sam v | _ \<Rightarrow> out)"

definition sample_body :: "nat \<Rightarrow> item list \<Rightarrow> byte list" where
  "sample_body schema items =
     (if schema = 7 then [] else mask_bytes (map (mask_bit schema) items))
     @ concat (map (slot_bytes schema) items)
     @ concat (map abs_bytes items)"

definition store_sample :: "nat \<Rightarrow> nat \<Rightarrow> item list \<Rightarrow> int list list \<Rightarrow> int list list" where
  "store_sample ns sam items out =
     map2 (\<lambda>it row. row[sam := next_value (row ! prev_col ns sam) it]) items out"

fun store_all :: "nat \<Rightarrow> nat \<Rightarrow> (bool \<times> item list) list \<Rightarrow> int list list \<Rightarrow> int list list" where
  "store_all ns sam [] out = out"
| "store_all ns sam (s # ss) out = store_all ns (Suc sam) ss (store_sample ns sam (snd s) out)"

fun row_all :: "nat \<Rightarrow> nat \<Rightarrow> item list \<Rightarrow> int list \<Rightarrow> int list" where
  "row_all ns sam [] row = row"
| "row_all ns sam (it # its) row =
     row_all ns (Suc sam) its (row[sam := next_value (row ! prev_col ns sam) it])"

text \<open>
  A raw-data file with the header fields of \<open>example_hdr\<close>, laid out as
  \<open>_read_hdr_file\<close> reads them (identifier, schema, base schema, creation time, two
  numeric identifiers, four names, sample rate, channel count, delta bits, physical
  channels, padding up to offset 4464, headbox types and serial numbers, three version
  strings, discard bits, and for schema 8 and above the two tables), followed by the
  sample bytes \<open>data\<close>.
\<close>

definition example_erd :: "nat \<Rightarrow> nat \<Rightarrow> int \<Rightarrow> int \<Rightarrow> byte list \<Rightarrow> byte list" where
  "example_erd schema n_chan hb db data =
     replicate 16 0
     @ le_bytes 2 (int schema)
     @ le_bytes 2 1
     @ replicate 4 0
     @ replicate 4 0
     @ replicate 4 0
     @ replicate 80 0
     @ replicate 80 0
     @ replicate 80 0
     @ replicate 80 0
     @ replicate 8 0
     @ le_bytes 4 (int n_chan)
     @ replicate 4 0
     @ replicate (4 * n_chan) 0
     @ replicate (4096 - 4 * n_chan) 0
     @ (le_bytes 4 hb @ replicate 12 0)
     @ replicate 16 0
     @ replicate 40 0
     @ replicate 10 0
     @ replicate 10 0
     @ le_bytes 4 db
     @ (if schema \<ge> 8 then replicate 2048 0 @ replicate 2048 0 else []) @ data"

text \<open>
  A table of contents with the given entries: the common header and the three fields
  before the entries as zero bytes, then each entry as \<open>_read_stc\<close> reads it, the name
  filled with null bytes up to 256. \<open>valid_stamp\<close> says that the name is ASCII without
  a null character and at most 256 long, and that the four numbers are signed 32-bit.
\<close>

definition byte_of_char :: "char \<Rightarrow> byte" where
  "byte_of_char c = word_of_int (of_char c)"

definition name_bytes :: "string \<Rightarrow> byte list" where
  "name_bytes name = map byte_of_char name @ replicate (256 - length name) 0"

definition stamp_bytes :: "stamp \<Rightarrow> byte list" where
  "stamp_bytes s =
     name_bytes (segment_name s) @ le_bytes 4 (start_stamp s) @ le_bytes 4 (end_stamp s)
     @ le_bytes 4 (sample_num s) @ le_bytes 4 (sample_span s)"

definition example_stc :: "stamp list \<Rightarrow> byte list" where
  "example_stc stamps =
     replicate 352 0 @ replicate 4 0 @ replicate 4 0 @ replicate 48 0
     @ concat (map stamp_bytes stamps)"

definition int32 :: "int \<Rightarrow> bool" where
  "int32 v = (- 2147483648 \<le> v \<and> v \<le> 2147483647)"

definition valid_stamp :: "stamp \<Rightarrow> bool" where
  "valid_stamp s =
     (length (segment_name s) \<le> 256
      \<and> list_all (\<lambda>c. 0 < (of_char c :: int) \<and> (of_char c :: int) < 128) (segment_name s)
      \<and> int32 (start_stamp s) \<and> int32 (end_stamp s)
      \<and> int32 (sample_num s) \<and> int32 (sample_span s))"

text \<open>
  A recording of two segments \<open>a\<close> and \<open>b\<close> of \<open>sp\<close> samples each: its table of
  contents and its two raw-data files of schema 7 with two channels. The three samples
  of channel 0 are 5, 7, 8 in \<open>a\<close> and 9, 10, 11 in \<open>b\<close>.
\<close>

definition example_stamps :: "int \<Rightarrow> stamp list" where
  "example_stamps sp =
     [\<lparr>segment_name = ''a'', start_stamp = 0, end_stamp = sp - 1, sample_num = 0,
       sample_span = sp\<rparr>,
      \<lparr>segment_name = ''b'', start_stamp = sp, end_stamp = 2 * sp - 1, sample_num = sp,
       sample_span = sp\<rparr>]"

definition example_files :: "int \<Rightarrow> string \<rightharpoonup> byte list" where
  "example_files sp =
     [''x.stc'' \<mapsto> example_stc (example_stamps sp),
      ''a.erd'' \<mapsto> example_erd 7 2 1 0 [0, 5, 6, 0, 2, 1, 0, 1, 1],
      ''b.erd'' \<mapsto> example_erd 7 2 1 0 [0, 9, 4, 0, 1, 1, 0, 1, 1]]"

section \<open>Basic facts\<close>

lemma ebind_Inr [simp]: "ebind (Inr v) f = f v"
  by (simp add: ebind_def)

lemma ebind_Inl [simp]: "ebind (Inl e) f = Inl e"
  by (simp add: ebind_def)


section \<open>The decoder on encoded streams\<close>

lemma le_uint_le_bytes: "le_uint (le_bytes n v) = v mod 256 ^ n"
proof (induction n arbitrary: v)
  case 0
  show ?case by simp
next
  case (Suc n)
  have "uint (word_of_int v :: byte) = v mod 256" by (simp add: uint_word_of_int)
  then show ?case using Suc [of "v div 256"] zmod_zmult2_eq [of "256 ^ n" v 256]
    by simp
qed

lemma length_le_bytes [simp]: "length (le_bytes n v) = n"
  by (induction n arbitrary: v) auto

lemma to_signed_mod:
  assumes "- (2 ^ (n - 1)) \<le> v" and "v < 2 ^ (n - 1)" and "n > 0"
  shows "to_signed n (v mod 2 ^ n) = v"
proof -
  have p: "(2::int) ^ n = 2 * 2 ^ (n - 1)" using assms(3) by (cases n) auto
  show ?thesis
  proof (cases "v \<ge> 0")
    case True
    then have "v mod 2 ^ n = v" using assms p by simp
    then show ?thesis using assms by (simp add: to_signed_def)
  next
    case False
    then have "v mod 2 ^ n = v + 2 ^ n" using assms p
      by (smt (verit) mod_add_self2 mod_pos_pos_trivial)
    then show ?thesis using assms False p by (simp add: to_signed_def)
  qed
qed

lemma le_bytes_2: "le_bytes 2 v = [word_of_int v, word_of_int (v div 256)]"
  by (simp add: numeral_2_eq_2)

lemma le_bytes_4:
  "le_bytes 4 v = [word_of_int v, word_of_int (v div 256), word_of_int (v div 256 div 256),
     word_of_int (v div 256 div 256 div 256)]"
  by (simp add: numeral_eq_Suc)

lemma unpack_b_word: "- 128 \<le> d \<Longrightarrow> d \<le> 127 \<Longrightarrow> unpack_b [word_of_int d] = Inr d"
  using to_signed_mod [of 8 d] le_uint_le_bytes [of 1 d] by (simp add: unpack_b_def)

lemma unpack_h_word:
  "- 32768 \<le> d \<Longrightarrow> d \<le> 32767 \<Longrightarrow> unpack_h [word_of_int d, word_of_int (d div 256)] = Inr d"
  using to_signed_mod [of 16 d] le_uint_le_bytes [of 2 d] by (simp add: unpack_h_def le_bytes_2)

lemma unpack_i_word:
  "- 2147483648 \<le> d \<Longrightarrow> d \<le> 2147483647 \<Longrightarrow> unpack_i (le_bytes 4 d) = Inr d"
  using to_signed_mod [of 32 d] le_uint_le_bytes [of 4 d] by (simp add: unpack_i_def)

lemma narrow_neq_esc:
  assumes "- 128 \<le> d" and "d \<le> 127" and "d \<noteq> - 128"
  shows "(word_of_int d :: byte) \<noteq> 0x80"
proof
  assume eq: "(word_of_int d :: byte) = 0x80"
  have "unpack_b [word_of_int d] = Inr d" using assms by (simp only: unpack_b_word)
  moreover have "unpack_b [0x80] = Inr (- 128)" by (simp add: unpack_b_def to_signed_def)
  ultimately show False using assms(3) unfolding eq by simp
qed

lemma wide_neq_esc:
  assumes "- 32768 \<le> d" and "d \<le> 32767" and "d \<noteq> - 1"
  shows "[word_of_int d, word_of_int (d div 256)] \<noteq> [0xFF, 0xFF :: byte]"
proof
  assume eq: "[word_of_int d, word_of_int (d div 256)] = [0xFF, 0xFF :: byte]"
  have "unpack_h [word_of_int d, word_of_int (d div 256)] = Inr d"
    using assms by (simp only: unpack_h_word)
  moreover have "unpack_h [0xFF, 0xFF] = Inr (- 1)" by (simp add: unpack_h_def to_signed_def)
  ultimately show False using assms(3) unfolding eq by simp
qed

lemma slice_at:
  assumes "drop i fb = xs @ rest" and "n \<le> length xs"
  shows "slice fb i (i + n) = take n xs"
  using assms by (simp add: slice_def)

lemma drop_at:
  assumes "drop i fb = xs @ rest"
  shows "drop (i + length xs) fb = rest"
proof -
  have "drop (i + length xs) fb = drop (length xs) (drop i fb)" by (simp add: add.commute)
  then show ?thesis using assms by simp
qed

lemma length_slot_bytes:
  "length (slot_bytes schema it) = (if mask_bit schema it then 2 else 1)"
  by (cases it) (auto simp: slot_bytes_def mask_bit_def abs_delta_def le_bytes_2)

lemma slot_is_esc:
  assumes "valid_item schema it"
  shows "slot_bytes schema it = abs_delta schema \<longleftrightarrow> is_abs it"
proof (cases it)
  case (Narrow d)
  then show ?thesis using assms narrow_neq_esc [of d]
    by (auto simp: slot_bytes_def is_abs_def valid_item_def abs_delta_def)
next
  case (Wide d)
  then show ?thesis using assms wide_neq_esc [of d]
    by (auto simp: slot_bytes_def is_abs_def valid_item_def abs_delta_def le_bytes_2)
next
  case (Absolute v)
  then show ?thesis by (simp add: slot_bytes_def is_abs_def)
qed

lemma slot_unpack:
  assumes "valid_item schema it" and "\<not> is_abs it"
  shows "(if mask_bit schema it then unpack_h (slot_bytes schema it)
          else unpack_b (slot_bytes schema it)) = Inr (next_value p it - p)"
  using assms
  by (cases it)
    (auto simp: slot_bytes_def is_abs_def valid_item_def mask_bit_def next_value_def
      unpack_b_word unpack_h_word le_bytes_2)

lemma read_deltas_encoded:
  assumes "list_all (valid_item schema) items"
    and "drop i fb = concat (map (slot_bytes schema) items) @ rest"
  shows "read_deltas fb (abs_delta schema) ns sam (map (mask_bit schema) items) ic i out av
    = Inr (i + length (concat (map (slot_bytes schema) items)),
           delta_store ns sam ic items out, mark_abs ic items av)"
  using assms
proof (induction items arbitrary: ic i out av)
  case Nil
  show ?case by simp
next
  case (Cons it its)
  let ?w = "if mask_bit schema it then 2 else (1::nat)"
  have v: "valid_item schema it" and vs: "list_all (valid_item schema) its"
    using Cons.prems(1) by simp_all
  have d: "drop i fb = slot_bytes schema it @ (concat (map (slot_bytes schema) its) @ rest)"
    using Cons.prems(2) by simp
  have len: "length (slot_bytes schema it) = ?w" by (rule length_slot_bytes)
  have val: "slice fb i (i + ?w) = slot_bytes schema it"
    using slice_at [OF d, of ?w] len by simp
  have d': "drop (i + ?w) fb = concat (map (slot_bytes schema) its) @ rest"
    using drop_at [OF d] len by simp
  note IH = Cons.IH [OF vs d']
  show ?case
  proof (cases "is_abs it")
    case True
    then have "slot_bytes schema it = abs_delta schema" using slot_is_esc [OF v] by simp
    then show ?thesis using val True IH len
      by (cases "mask_bit schema it") (simp_all add: Let_def add.assoc)
  next
    case False
    then have ne: "slot_bytes schema it \<noteq> abs_delta schema" using slot_is_esc [OF v] by simp
    have u: "(if mask_bit schema it then unpack_h (slot_bytes schema it)
          else unpack_b (slot_bytes schema it))
        = Inr (next_value (out ! ic ! prev_col ns sam) it - out ! ic ! prev_col ns sam)"
      by (rule slot_unpack [OF v False])
    show ?thesis using val ne u False IH len
      by (cases "mask_bit schema it") (simp_all add: Let_def add.assoc)
  qed
qed

declare mask_bytes.simps [simp del]

lemma abs_bytes_simps [simp]:
  "abs_bytes (Absolute v) = le_bytes 4 v" "abs_bytes (Narrow d) = []" "abs_bytes (Wide d) = []"
  by (simp_all add: abs_bytes_def)

lemma is_abs_simps [simp]:
  "is_abs (Absolute v)" "\<not> is_abs (Narrow d)" "\<not> is_abs (Wide d)"
  by (simp_all add: is_abs_def)

lemma read_abs_encoded:
  assumes "list_all (valid_item schema) items"
    and "drop i fb = concat (map abs_bytes items) @ rest"
  shows "read_abs fb sam (map is_abs items) ic i out
    = Inr (i + length (concat (map abs_bytes items)), abs_store sam ic items out)"
  using assms
proof (induction items arbitrary: ic i out)
  case Nil
  show ?case by simp
next
  case (Cons it its)
  have vs: "list_all (valid_item schema) its" using Cons.prems(1) by simp
  show ?case
  proof (cases it)
    case (Absolute v)
    have d: "drop i fb = le_bytes 4 v @ (concat (map abs_bytes its) @ rest)"
      using Cons.prems(2) Absolute by simp
    have val: "slice fb i (i + 4) = le_bytes 4 v" using slice_at [OF d, of 4] by simp
    have d': "drop (i + 4) fb = concat (map abs_bytes its) @ rest"
      using drop_at [OF d] by simp
    have u: "unpack_i (le_bytes 4 v) = Inr v"
      using Cons.prems(1) Absolute by (simp add: unpack_i_word valid_item_def)
    show ?thesis using Cons.IH [OF vs d'] val u Absolute
      by (simp add: add.assoc)
  next
    case (Narrow d)
    then show ?thesis using Cons.IH [OF vs] Cons.prems(2)
      by simp
  next
    case (Wide d)
    then show ?thesis using Cons.IH [OF vs] Cons.prems(2)
      by simp
  qed
qed

lemma mark_abs_fresh:
  "length pre = ic \<Longrightarrow>
   mark_abs ic items (pre @ replicate (length items) False) = pre @ map is_abs items"
proof (induction items arbitrary: ic pre)
  case Nil
  show ?case by simp
next
  case (Cons it its)
  have "(pre @ False # replicate (length its) False)[ic := True]
      = pre @ True # replicate (length its) False"
    using Cons.prems by (simp add: list_update_append)
  then show ?case using Cons.IH [of "pre @ [is_abs it]" "Suc ic"] Cons.prems
    by (cases "is_abs it") simp_all
qed

lemma bits_lsb_byte_of_bits: "length bs = 8 \<Longrightarrow> bits_lsb (byte_of_bits bs) = bs"
  by (rule nth_equalityI)
    (simp_all add: bits_lsb_def byte_of_bits_def bit_horner_sum_bit_word_iff)

lemma length_bits_lsb [simp]: "length (bits_lsb x) = 8"
  by (simp add: bits_lsb_def)

lemma div8_step:
  assumes "0 < (n::nat)"
  shows "(n + 7) div 8 = Suc ((n - 8 + 7) div 8)"
proof (cases "n < 8")
  case True
  then have "(n + 7) div 8 = 1" using assms by (cases n) simp_all
  then show ?thesis using True by simp
next
  case False
  then show ?thesis by simp
qed

lemma length_mask_bytes: "length (mask_bytes bits) = (length bits + 7) div 8"
proof (induction bits rule: mask_bytes.induct)
  case (1 bits)
  show ?case
  proof (cases "bits = []")
    case True
    then show ?thesis by (simp add: mask_bytes.simps)
  next
    case False
    then have "length bits > 0" by simp
    then have "(length bits + 7) div 8 = Suc ((length bits - 8 + 7) div 8)" by (rule div8_step)
    then show ?thesis using 1 False by (subst mask_bytes.simps) simp
  qed
qed

lemma mask_roundtrip: "take (length bits) (concat (map bits_lsb (mask_bytes bits))) = bits"
proof (induction bits rule: mask_bytes.induct)
  case (1 bits)
  show ?case
  proof (cases "bits = []")
    case True
    then show ?thesis by (simp add: mask_bytes.simps)
  next
    case False
    have l8: "length (take 8 (bits @ replicate 7 True)) = 8" using False
      by (cases bits) auto
    have c: "concat (map bits_lsb (mask_bytes bits))
        = take 8 (bits @ replicate 7 True) @ concat (map bits_lsb (mask_bytes (drop 8 bits)))"
      using False l8 by (subst mask_bytes.simps) (simp add: bits_lsb_byte_of_bits)
    show ?thesis
    proof (cases "length bits \<ge> 8")
      case True
      then have "take (length bits) (concat (map bits_lsb (mask_bytes bits)))
          = take 8 bits @ take (length (drop 8 bits)) (concat (map bits_lsb (mask_bytes (drop 8 bits))))"
        unfolding c by simp
      then show ?thesis using 1 [OF False] by simp
    next
      case False
      then show ?thesis unfolding c by simp
    qed
  qed
qed

lemma mask_bit_7: "valid_item 7 it \<Longrightarrow> \<not> mask_bit 7 it"
  by (cases it) (simp_all add: valid_item_def mask_bit_def)

lemma mask_7_all_narrow:
  "list_all (valid_item 7) items \<Longrightarrow> map (mask_bit 7) items = replicate (length items) False"
  by (induction items) (simp_all add: mask_bit_7)

lemma read_deltamask_encoded:
  assumes "list_all (valid_item schema) items" and "length items = n_chan"
    and "drop i fb = (if schema = 7 then [] else mask_bytes (map (mask_bit schema) items)) @ rest"
  shows "\<exists>dm. read_deltamask schema n_chan fb i
      = Inr (dm, i + length (if schema = 7 then [] else mask_bytes (map (mask_bit schema) items)))
    \<and> take n_chan dm = map (mask_bit schema) items"
proof (cases "schema = 7")
  case True
  then show ?thesis using assms mask_7_all_narrow [of items]
    by (simp add: read_deltamask_def)
next
  case False
  let ?bits = "map (mask_bit schema) items"
  have l: "length (mask_bytes ?bits) = (n_chan + 7) div 8"
    using assms(2) by (simp add: length_mask_bytes)
  have d: "drop i fb = mask_bytes ?bits @ rest" using assms(3) False by simp
  have sl: "slice fb i (i + (n_chan + 7) div 8) = mask_bytes ?bits"
    using slice_at [OF d, of "(n_chan + 7) div 8"] l by simp
  have rt: "take n_chan (concat (map bits_lsb (mask_bytes ?bits))) = ?bits"
    using mask_roundtrip [of ?bits] assms(2) by simp
  show ?thesis using False sl l rt
    by (simp add: read_deltamask_def unpack_B_n_def Let_def)
qed

lemma read_sample_encoded:
  assumes "valid_sample schema n_chan s"
    and "drop i fb = sample_body schema (snd s) @ rest"
  shows "read_sample schema n_chan fb ns sam i out
    = Inr (i + length (sample_body schema (snd s)),
           abs_store sam 0 (snd s) (delta_store ns sam 0 (snd s) out))"
proof -
  let ?items = "snd s"
  let ?m = "if schema = 7 then [] else mask_bytes (map (mask_bit schema) ?items)"
  let ?sl = "concat (map (slot_bytes schema) ?items)"
  let ?ab = "concat (map abs_bytes ?items)"
  define j1 where "j1 = i + length ?m"
  define j2 where "j2 = j1 + length ?sl"
  define j3 where "j3 = j2 + length ?ab"
  have v: "list_all (valid_item schema) ?items" and n: "length ?items = n_chan"
    using assms(1) by (simp_all add: valid_sample_def)
  have d0: "drop i fb = ?m @ (?sl @ ?ab @ rest)"
    using assms(2) by (simp add: sample_body_def)
  from read_deltamask_encoded [OF v n d0] obtain dm where
    dm: "read_deltamask schema n_chan fb i = Inr (dm, j1)"
    and tk: "take n_chan dm = map (mask_bit schema) ?items" unfolding j1_def by blast
  have d1: "drop j1 fb = ?sl @ (?ab @ rest)" unfolding j1_def using drop_at [OF d0] by simp
  have rdl: "read_deltas fb (abs_delta schema) ns sam (map (mask_bit schema) ?items) 0
      j1 out (replicate n_chan False)
    = Inr (j2, delta_store ns sam 0 ?items out, mark_abs 0 ?items (replicate n_chan False))"
    unfolding j2_def by (rule read_deltas_encoded [OF v d1])
  have mk: "mark_abs 0 ?items (replicate n_chan False) = map is_abs ?items"
    using mark_abs_fresh [of "[]" 0 ?items] n by simp
  have d2: "drop j2 fb = ?ab @ rest" unfolding j2_def using drop_at [OF d1] by simp
  have rab: "read_abs fb sam (map is_abs ?items) 0 j2 (delta_store ns sam 0 ?items out)
    = Inr (j3, abs_store sam 0 ?items (delta_store ns sam 0 ?items out))"
    unfolding j3_def by (rule read_abs_encoded [OF v d2])
  have len: "i + length (sample_body schema ?items) = j3"
    by (simp add: sample_body_def j1_def j2_def j3_def)
  show ?thesis
    unfolding read_sample_def dm len
    by (simp add: tk rdl mk rab)
qed

lemma delta_store_rows:
  "length pre = ic \<Longrightarrow> length mid = length items \<Longrightarrow>
   delta_store ns sam ic items (pre @ mid)
     = pre @ map2 (\<lambda>it row. if is_abs it then row
                               else row[sam := next_value (row ! prev_col ns sam) it]) items mid"
proof (induction items arbitrary: ic pre mid)
  case Nil
  then show ?case by simp
next
  case (Cons it its)
  then obtain r mid' where mid: "mid = r # mid'" by (cases mid) auto
  have l: "length mid' = length its" using Cons.prems mid by simp
  have g: "(pre @ r # mid') ! ic = r" using Cons.prems by (simp add: nth_append)
  have u: "\<And>v. mat_set (pre @ r # mid') ic sam v = (pre @ [r[sam := v]]) @ mid'"
    using Cons.prems by (simp add: mat_set_def nth_append list_update_append)
  show ?case
  proof (cases "is_abs it")
    case True
    then show ?thesis using Cons.IH [of "pre @ [r]" "Suc ic" mid'] Cons.prems l mid by simp
  next
    case False
    then show ?thesis
      using Cons.IH [of "pre @ [r[sam := next_value (r ! prev_col ns sam) it]]" "Suc ic" mid']
        Cons.prems l
      unfolding mid by (simp add: g u del: append_assoc)
  qed
qed

lemma abs_store_rows:
  "length pre = ic \<Longrightarrow> length mid = length items \<Longrightarrow>
   abs_store sam ic items (pre @ mid)
     = pre @ map2 (\<lambda>it row. case it of Absolute v \<Rightarrow> row[sam := v] | _ \<Rightarrow> row) items mid"
proof (induction items arbitrary: ic pre mid)
  case Nil
  then show ?case by simp
next
  case (Cons it its)
  then obtain r mid' where mid: "mid = r # mid'" by (cases mid) auto
  have l: "length mid' = length its" using Cons.prems mid by simp
  have u: "\<And>v. mat_set (pre @ r # mid') ic sam v = (pre @ [r[sam := v]]) @ mid'"
    using Cons.prems by (simp add: mat_set_def nth_append list_update_append)
  show ?case
  proof (cases it)
    case (Absolute v)
    then show ?thesis
      using Cons.IH [of "pre @ [r[sam := v]]" "Suc ic" mid'] Cons.prems l
      unfolding mid by (simp add: u del: append_assoc)
  next
    case (Narrow d)
    then show ?thesis using Cons.IH [of "pre @ [r]" "Suc ic" mid'] Cons.prems l mid by simp
  next
    case (Wide d)
    then show ?thesis using Cons.IH [of "pre @ [r]" "Suc ic" mid'] Cons.prems l mid by simp
  qed
qed

lemma store_rows_compose:
  "length mid = length items \<Longrightarrow>
   map2 (\<lambda>it row. case it of Absolute v \<Rightarrow> row[sam := v] | _ \<Rightarrow> row) items
     (map2 (\<lambda>it row. if is_abs it then row
                       else row[sam := next_value (row ! prev_col ns sam) it]) items mid)
   = store_sample ns sam items mid"
proof (induction items arbitrary: mid)
  case Nil
  then show ?case by (simp add: store_sample_def)
next
  case (Cons it its)
  then obtain r mid' where mid: "mid = r # mid'" by (cases mid) auto
  then show ?case using Cons.IH [of mid'] Cons.prems
    by (cases it) (simp_all add: store_sample_def next_value_def)
qed

lemma stores_eq_store_sample:
  assumes "length out = length items"
  shows "abs_store sam 0 items (delta_store ns sam 0 items out) = store_sample ns sam items out"
proof -
  have "delta_store ns sam 0 items ([] @ out)
      = [] @ map2 (\<lambda>it row. if is_abs it then row
                               else row[sam := next_value (row ! prev_col ns sam) it]) items out"
    by (rule delta_store_rows) (simp_all add: assms)
  moreover have "abs_store sam 0 items
      ([] @ map2 (\<lambda>it row. if is_abs it then row
                               else row[sam := next_value (row ! prev_col ns sam) it]) items out)
      = [] @ map2 (\<lambda>it row. case it of Absolute v \<Rightarrow> row[sam := v] | _ \<Rightarrow> row) items
         (map2 (\<lambda>it row. if is_abs it then row
                               else row[sam := next_value (row ! prev_col ns sam) it]) items out)"
    by (rule abs_store_rows) (simp_all add: assms)
  ultimately show ?thesis using store_rows_compose [of out items sam ns] assms by simp
qed

declare erd_samples.simps [simp del]

lemma length_store_sample [simp]:
  "length (store_sample ns sam items out) = min (length items) (length out)"
  by (simp add: store_sample_def)

lemma encode_Cons:
  "encode schema (s # ss)
     = ((if fst s then 1 else 0) # sample_body schema (snd s)) @ encode schema ss"
  by (simp add: encode_def encode_sample_def sample_body_def)

lemma erd_samples_encoded:
  assumes "list_all (valid_sample schema n_chan) samples"
    and "drop i fb = encode schema samples @ rest"
    and "length out = n_chan"
    and "sam + length samples \<le> ns"
  shows "erd_samples schema n_chan fb ns sam i out
    = erd_samples schema n_chan fb ns (sam + length samples)
        (i + length (encode schema samples)) (store_all ns sam samples out)"
  using assms
proof (induction samples arbitrary: sam i out)
  case Nil
  show ?case by (simp add: encode_def)
next
  case (Cons s ss)
  let ?ev = "(if fst s then 1 else 0) :: byte"
  let ?body = "sample_body schema (snd s)"
  have v: "valid_sample schema n_chan s" and vs: "list_all (valid_sample schema n_chan) ss"
    using Cons.prems(1) by simp_all
  have d: "drop i fb = [?ev] @ (?body @ encode schema ss @ rest)"
    using Cons.prems(2) by (simp add: encode_Cons)
  have ev: "slice fb i (i + 1) = [?ev]" using slice_at [OF d, of 1] by simp
  have d1: "drop (i + 1) fb = ?body @ (encode schema ss @ rest)" using drop_at [OF d] by simp
  have rs: "read_sample schema n_chan fb ns sam (i + 1) out
      = Inr (i + 1 + length ?body, abs_store sam 0 (snd s) (delta_store ns sam 0 (snd s) out))"
    by (rule read_sample_encoded [OF v d1])
  have li: "length (snd s) = n_chan" using v by (simp add: valid_sample_def)
  have st: "abs_store sam 0 (snd s) (delta_store ns sam 0 (snd s) out)
      = store_sample ns sam (snd s) out"
    by (rule stores_eq_store_sample) (simp add: li Cons.prems(3))
  have d2: "drop (i + 1 + length ?body) fb = encode schema ss @ rest"
    using drop_at [OF d1] by simp
  have lo: "length (store_sample ns sam (snd s) out) = n_chan"
    by (simp add: li Cons.prems(3))
  have sm: "Suc sam + length ss \<le> ns" using Cons.prems(4) by simp
  have ev': "slice fb i (Suc i) = [?ev]" using ev by simp
  have rs': "read_sample schema n_chan fb ns sam (Suc i) out
      = Inr (Suc (i + length ?body), store_sample ns sam (snd s) out)"
    using rs st by simp
  have step: "erd_samples schema n_chan fb ns sam i out
      = erd_samples schema n_chan fb ns (Suc sam) (i + 1 + length ?body)
          (store_sample ns sam (snd s) out)"
    using Cons.prems(4)
    by (subst erd_samples.simps) (simp add: ev' rs' Let_def)
  have le: "i + length (encode schema (s # ss)) = i + 1 + length ?body + length (encode schema ss)"
    by (simp add: encode_Cons)
  show ?case
    unfolding step le using Cons.IH [OF vs d2 lo sm] by simp
qed

lemma erd_samples_done:
  "ns \<le> sam \<Longrightarrow> erd_samples schema n_chan fb ns sam i out = Inr out"
  by (subst erd_samples.simps) simp

lemma erd_samples_eof:
  "drop i fb = [] \<Longrightarrow> erd_samples schema n_chan fb ns sam i out = Inr out"
  by (subst erd_samples.simps) (simp add: slice_def Let_def)

lemma store_sample_nth:
  assumes "c < length items" and "c < length out"
  shows "store_sample ns sam items out ! c
    = (out ! c)[sam := next_value (out ! c ! prev_col ns sam) (items ! c)]"
  using assms by (simp add: store_sample_def)

lemma store_all_nth:
  assumes "list_all (valid_sample schema n_chan) samples"
    and "length out = n_chan" and "c < n_chan"
  shows "length (store_all ns sam samples out) = n_chan
    \<and> store_all ns sam samples out ! c = row_all ns sam (map (\<lambda>s. snd s ! c) samples) (out ! c)"
  using assms
proof (induction samples arbitrary: sam out)
  case Nil
  then show ?case by simp
next
  case (Cons s ss)
  have vs: "list_all (valid_sample schema n_chan) ss" using Cons.prems(1) by simp
  have "valid_sample schema n_chan s" using Cons.prems(1) by simp
  then have li: "length (snd s) = n_chan" by (simp add: valid_sample_def)
  have lo: "length (store_sample ns sam (snd s) out) = n_chan"
    by (simp add: li Cons.prems(2))
  have nth: "store_sample ns sam (snd s) out ! c
      = (out ! c)[sam := next_value (out ! c ! prev_col ns sam) (snd s ! c)]"
    by (rule store_sample_nth) (simp_all add: li Cons.prems)
  show ?case using Cons.IH [OF vs lo Cons.prems(3), of "Suc sam"] nth by simp
qed

lemma row_all_props:
  assumes "length row = ns" and "sam + length its \<le> ns"
  shows "length (row_all ns sam its row) = ns
    \<and> (\<forall>s. s < sam \<or> sam + length its \<le> s \<longrightarrow> row_all ns sam its row ! s = row ! s)
    \<and> (\<forall>k < length its. row_all ns sam its row ! (sam + k)
          = next_value (if sam + k = 0 then row ! (ns - 1)
                        else row_all ns sam its row ! (sam + k - 1)) (its ! k))"
  using assms
proof (induction its arbitrary: sam row)
  case Nil
  then show ?case by simp
next
  case (Cons it its)
  let ?row1 = "row[sam := next_value (row ! prev_col ns sam) it]"
  let ?r = "row_all ns (Suc sam) its ?row1"
  have l1: "length ?row1 = ns" using Cons.prems by simp
  have s1: "Suc sam + length its \<le> ns" using Cons.prems by simp
  note IH = Cons.IH [OF l1 s1]
  have a: "length ?r = ns" using IH by blast
  have b: "\<And>s. s < Suc sam \<or> Suc sam + length its \<le> s \<Longrightarrow> ?r ! s = ?row1 ! s"
    using IH by blast
  have c: "\<And>k. k < length its \<Longrightarrow> ?r ! (Suc sam + k)
      = next_value (if Suc sam + k = 0 then ?row1 ! (ns - 1) else ?r ! (Suc sam + k - 1)) (its ! k)"
    using IH by blast
  have sam_lt: "sam < ns" using Cons.prems by simp
  have p1: "\<forall>s. s < sam \<or> sam + length (it # its) \<le> s \<longrightarrow> ?r ! s = row ! s"
  proof (intro allI impI)
    fix s assume h: "s < sam \<or> sam + length (it # its) \<le> s"
    then have "?r ! s = ?row1 ! s" using b [of s] by auto
    moreover have "?row1 ! s = row ! s" using h by auto
    ultimately show "?r ! s = row ! s" by simp
  qed
  have at_sam: "?r ! sam = next_value (row ! prev_col ns sam) it"
    using b [of sam] sam_lt Cons.prems(1) by simp
  have prev: "?r ! (sam - 1) = row ! (sam - 1)" if "sam > 0"
  proof -
    have "sam - 1 < Suc sam" by simp
    then have "?r ! (sam - 1) = ?row1 ! (sam - 1)" using b [of "sam - 1"] by blast
    moreover have "sam - 1 \<noteq> sam" using that by simp
    ultimately show ?thesis by simp
  qed
  have p2: "\<forall>k < length (it # its). ?r ! (sam + k)
      = next_value (if sam + k = 0 then row ! (ns - 1) else ?r ! (sam + k - 1)) ((it # its) ! k)"
  proof (intro allI impI)
    fix k assume k: "k < length (it # its)"
    show "?r ! (sam + k)
      = next_value (if sam + k = 0 then row ! (ns - 1) else ?r ! (sam + k - 1)) ((it # its) ! k)"
    proof (cases k)
      case 0
      then show ?thesis using at_sam prev by (cases "sam = 0") (simp_all add: prev_col_def)
    next
      case (Suc k')
      then have "k' < length its" using k by simp
      from c [OF this] show ?thesis using Suc by simp
    qed
  qed
  show ?case using a p1 p2 by simp
qed

lemma length_store_all:
  assumes "list_all (valid_sample schema n_chan) samples" and "length out = n_chan"
  shows "length (store_all ns sam samples out) = n_chan"
  using assms
proof (induction samples arbitrary: sam out)
  case Nil
  then show ?case by simp
next
  case (Cons s ss)
  have vs: "list_all (valid_sample schema n_chan) ss" using Cons.prems(1) by simp
  have "valid_sample schema n_chan s" using Cons.prems(1) by simp
  then have li: "length (snd s) = n_chan" by (simp add: valid_sample_def)
  have lo: "length (store_sample ns sam (snd s) out) = n_chan"
    by (simp add: li Cons.prems(2))
  show ?case using Cons.IH [OF vs lo] by simp
qed

lemma erd_output_encoded:
  assumes sch: "file_schema h \<in> {7, 8, 9}"
    and nc: "num_channels h = Some (int n_chan)"
    and v: "list_all (valid_sample (file_schema h) n_chan) samples"
    and d: "drop (erd_start (file_schema h)) filebytes = encode (file_schema h) samples @ rest"
    and le: "length samples \<le> n_samples"
    and fin: "length samples = n_samples \<or> rest = []"
  shows "\<exists>out. erd_output h filebytes (int n_samples) = Inr out \<and> length out = n_chan
    \<and> (\<forall>c < n_chan. length (out ! c) = n_samples
          \<and> (\<forall>s < length samples. out ! c ! s
                = next_value (if s = 0 then 0 else out ! c ! (s - 1)) (snd (samples ! s) ! c))
          \<and> (\<forall>s. length samples \<le> s \<and> s < n_samples \<longrightarrow> out ! c ! s = 0))"
proof (cases "n_samples = 0")
  case True
  then show ?thesis using nc le by (simp add: erd_output_def getkey_def zeros_def)
next
  case False
  let ?schema = "file_schema h"
  let ?i0 = "erd_start ?schema"
  let ?z = "zeros n_chan n_samples"
  let ?out = "store_all n_samples 0 samples ?z"
  have lz: "length ?z = n_chan" by (simp add: zeros_def)
  have e0: "erd_output h filebytes (int n_samples)
      = erd_samples ?schema n_chan filebytes n_samples 0 ?i0 ?z"
    using False nc sch by (simp add: erd_output_def getkey_def)
  have e1: "erd_samples ?schema n_chan filebytes n_samples 0 ?i0 ?z
      = erd_samples ?schema n_chan filebytes n_samples (0 + length samples)
          (?i0 + length (encode ?schema samples)) ?out"
    by (rule erd_samples_encoded [OF v d lz]) (simp add: le)
  have e2: "erd_samples ?schema n_chan filebytes n_samples (0 + length samples)
          (?i0 + length (encode ?schema samples)) ?out = Inr ?out"
  proof (cases "length samples = n_samples")
    case True
    then show ?thesis by (simp add: erd_samples_done)
  next
    case False
    then have "rest = []" using fin by simp
    then have "drop (?i0 + length (encode ?schema samples)) filebytes = []"
      using drop_at [OF d] by simp
    then show ?thesis by (rule erd_samples_eof)
  qed
  have res: "erd_output h filebytes (int n_samples) = Inr ?out" using e0 e1 e2 by simp
  have rows: "length (?out ! c) = n_samples
      \<and> (\<forall>s < length samples. ?out ! c ! s
            = next_value (if s = 0 then 0 else ?out ! c ! (s - 1)) (snd (samples ! s) ! c))
      \<and> (\<forall>s. length samples \<le> s \<and> s < n_samples \<longrightarrow> ?out ! c ! s = 0)"
    if c: "c < n_chan" for c
  proof -
    let ?its = "map (\<lambda>s. snd s ! c) samples"
    let ?row = "replicate n_samples (0::int)"
    have zc: "?z ! c = ?row" using c by (simp add: zeros_def)
    have oc: "?out ! c = row_all n_samples 0 ?its ?row"
      using store_all_nth [OF v lz c, of n_samples 0] zc by simp
    have lr: "length ?row = n_samples" by simp
    have b: "0 + length ?its \<le> n_samples" using le by simp
    note P = row_all_props [OF lr b]
    have p1: "length (row_all n_samples 0 ?its ?row) = n_samples" using P by blast
    have p2: "\<And>s. 0 + length ?its \<le> s \<Longrightarrow> row_all n_samples 0 ?its ?row ! s = ?row ! s"
      using P by blast
    have p3: "\<And>k. k < length ?its \<Longrightarrow> row_all n_samples 0 ?its ?row ! (0 + k)
        = next_value (if 0 + k = 0 then ?row ! (n_samples - 1)
                      else row_all n_samples 0 ?its ?row ! (0 + k - 1)) (?its ! k)"
      using P by blast
    have last0: "?row ! (n_samples - 1) = 0" using False by simp
    show ?thesis
    proof (intro conjI allI impI)
      show "length (?out ! c) = n_samples" using oc p1 by simp
    next
      fix s assume s: "s < length samples"
      then have "s < length ?its" by simp
      from p3 [OF this] show "?out ! c ! s
            = next_value (if s = 0 then 0 else ?out ! c ! (s - 1)) (snd (samples ! s) ! c)"
        using oc last0 s by simp
    next
      fix s assume s: "length samples \<le> s \<and> s < n_samples"
      then have "0 + length ?its \<le> s" by simp
      from p2 [OF this] show "?out ! c ! s = 0" using oc s by simp
    qed
  qed
  have lo: "length ?out = n_chan" by (rule length_store_all [OF v lz])
  show ?thesis using res lo rows by blast
qed

section \<open>The example file, and the shape of the output\<close>

lemma make_str_zeros: "make_str (replicate n 0) = Inr []"
  by (cases n) simp_all

lemma unpack_str_zeros: "unpack_str n (replicate n 0) = Inr []"
  by (simp add: unpack_str_def unpack_c_n_def make_str_zeros)

lemma chunks_replicate: "chunks w n (replicate (w * n) x) = replicate n (replicate w x)"
proof (induction n)
  case 0
  show ?case by simp
next
  case (Suc n)
  have "drop w (replicate (w * Suc n) x) = replicate (w * n) x" by simp
  then show ?case using Suc by simp
qed

lemma le_uint_zeros: "le_uint (replicate n 0) = 0"
  by (induction n) simp_all

lemma unpack_i_n_zeros: "unpack_i_n n (replicate (4 * n) 0) = Inr (replicate n 0)"
  by (simp add: unpack_i_n_def unpack_many_def chunks_replicate le_uint_zeros to_signed_def)

lemma unpack_h_n_zeros: "unpack_h_n n (replicate (2 * n) 0) = Inr (replicate n 0)"
  by (simp add: unpack_h_n_def unpack_many_def chunks_replicate le_uint_zeros to_signed_def)

lemma unpack_d_zeros: "unpack_d (replicate 8 0) = Inr 0"
  by (simp add: unpack_d_def le_uint_zeros)

lemma unpack_i_zeros: "unpack_i (replicate 4 0) = Inr 0"
  by (simp add: unpack_i_def le_uint_zeros to_signed_def)

lemma unpack_H_le_bytes: "n < 65536 \<Longrightarrow> unpack_H (le_bytes 2 (int n)) = Inr n"
  using le_uint_le_bytes [of 2 "int n"] by (simp add: unpack_H_def)

lemma unpack_i_n_4:
  assumes "- 2147483648 \<le> v" and "v \<le> 2147483647"
  shows "unpack_i_n 4 (le_bytes 4 v @ replicate 12 0) = Inr [v, 0, 0, 0]"
proof -
  have "to_signed 32 (le_uint (le_bytes 4 v)) = v"
    using unpack_i_word [OF assms] by (simp add: unpack_i_def)
  moreover have "chunks 4 4 (le_bytes 4 v @ replicate 12 0)
      = [le_bytes 4 v, replicate 4 0, replicate 4 0, replicate 4 0]"
    by (simp add: numeral_eq_Suc)
  ultimately show ?thesis
    by (simp add: unpack_i_n_def unpack_many_def le_uint_zeros to_signed_def)
qed

lemma rd_at:
  assumes "drop p f = bs @ rest" and "length bs = n"
  shows "rd f p n unpack k = ebind (unpack bs) (\<lambda>v. k v (p + n))"
  using assms by (simp add: rd_def slice_def)

lemma read_hdr_example:
  assumes "schema \<in> {7, 8, 9}" and "n_chan \<le> 1024"
    and "- 2147483648 \<le> hb" and "hb \<le> 2147483647"
    and "- 2147483648 \<le> db" and "db \<le> 2147483647"
  shows "read_hdr_file (example_erd schema n_chan hb db data) = Inr (example_hdr schema n_chan hb db)"
proof -
  define f where "f = example_erd schema n_chan hb db data"
  have us: "unpack_H (le_bytes 2 (int schema)) = Inr schema"
    using assms(1) by (intro unpack_H_le_bytes) auto
  have ub: "unpack_H (le_bytes 2 1) = Inr 1"
    using unpack_H_le_bytes [of 1] by simp
  have un: "unpack_i (le_bytes 4 (int n_chan)) = Inr (int n_chan)"
    using assms(2) by (intro unpack_i_word) auto
  have ud: "unpack_i (le_bytes 4 db) = Inr db" using assms by (intro unpack_i_word) auto
  have uh: "unpack_i_n 4 (le_bytes 4 hb @ replicate 12 0) = Inr [hb, 0, 0, 0]"
    using assms by (intro unpack_i_n_4) auto
  have uz16: "unpack_i_n 4 (replicate 16 0) = Inr [0, 0, 0, 0]"
    using unpack_i_n_zeros [of 4] by (simp add: numeral_eq_Suc)
  have uz2048: "unpack_h_n 1024 (replicate 2048 0) = Inr (replicate 1024 0)"
    using unpack_h_n_zeros [of 1024] by simp

  have D_guid: "drop 0 f = replicate 16 0 @ (le_bytes 2 (int schema) @ le_bytes 2 1 @ replicate 4 0 @ replicate 4 0 @ replicate 4 0 @ replicate 80 0 @ replicate 80 0 @ replicate 80 0 @ replicate 80 0 @ replicate 8 0 @ le_bytes 4 (int n_chan) @ replicate 4 0 @ replicate (4 * n_chan) 0 @ replicate (4096 - 4 * n_chan) 0 @ (le_bytes 4 hb @ replicate 12 0) @ replicate 16 0 @ replicate 40 0 @ replicate 10 0 @ replicate 10 0 @ le_bytes 4 db @ (if schema \<ge> 8 then replicate 2048 0 @ replicate 2048 0 else []) @ data)"
    by (simp add: f_def example_erd_def)

  have R_guid: "\<And>unpack k. rd f (0) 16 unpack k = ebind (unpack (replicate 16 0)) (\<lambda>v. k v (0 + 16))"
    by (rule rd_at [OF D_guid]) simp

  have D_schema: "drop (16) f = le_bytes 2 (int schema) @ (le_bytes 2 1 @ replicate 4 0 @ replicate 4 0 @ replicate 4 0 @ replicate 80 0 @ replicate 80 0 @ replicate 80 0 @ replicate 80 0 @ replicate 8 0 @ le_bytes 4 (int n_chan) @ replicate 4 0 @ replicate (4 * n_chan) 0 @ replicate (4096 - 4 * n_chan) 0 @ (le_bytes 4 hb @ replicate 12 0) @ replicate 16 0 @ replicate 40 0 @ replicate 10 0 @ replicate 10 0 @ le_bytes 4 db @ (if schema \<ge> 8 then replicate 2048 0 @ replicate 2048 0 else []) @ data)"
    using drop_at [OF D_guid] by simp

  have R_schema: "\<And>unpack k. rd f (16) 2 unpack k = ebind (unpack (le_bytes 2 (int schema))) (\<lambda>v. k v (16 + 2))"
    by (rule rd_at [OF D_schema]) simp

  have D_base: "drop (18) f = le_bytes 2 1 @ (replicate 4 0 @ replicate 4 0 @ replicate 4 0 @ replicate 80 0 @ replicate 80 0 @ replicate 80 0 @ replicate 80 0 @ replicate 8 0 @ le_bytes 4 (int n_chan) @ replicate 4 0 @ replicate (4 * n_chan) 0 @ replicate (4096 - 4 * n_chan) 0 @ (le_bytes 4 hb @ replicate 12 0) @ replicate 16 0 @ replicate 40 0 @ replicate 10 0 @ replicate 10 0 @ le_bytes 4 db @ (if schema \<ge> 8 then replicate 2048 0 @ replicate 2048 0 else []) @ data)"
    using drop_at [OF D_schema] by simp

  have R_base: "\<And>unpack k. rd f (18) 2 unpack k = ebind (unpack (le_bytes 2 1)) (\<lambda>v. k v (18 + 2))"
    by (rule rd_at [OF D_base]) simp

  have D_ctime: "drop (20) f = replicate 4 0 @ (replicate 4 0 @ replicate 4 0 @ replicate 80 0 @ replicate 80 0 @ replicate 80 0 @ replicate 80 0 @ replicate 8 0 @ le_bytes 4 (int n_chan) @ replicate 4 0 @ replicate (4 * n_chan) 0 @ replicate (4096 - 4 * n_chan) 0 @ (le_bytes 4 hb @ replicate 12 0) @ replicate 16 0 @ replicate 40 0 @ replicate 10 0 @ replicate 10 0 @ le_bytes 4 db @ (if schema \<ge> 8 then replicate 2048 0 @ replicate 2048 0 else []) @ data)"
    using drop_at [OF D_base] by simp

  have R_ctime: "\<And>unpack k. rd f (20) 4 unpack k = ebind (unpack (replicate 4 0)) (\<lambda>v. k v (20 + 4))"
    by (rule rd_at [OF D_ctime]) simp

  have D_pid: "drop (24) f = replicate 4 0 @ (replicate 4 0 @ replicate 80 0 @ replicate 80 0 @ replicate 80 0 @ replicate 80 0 @ replicate 8 0 @ le_bytes 4 (int n_chan) @ replicate 4 0 @ replicate (4 * n_chan) 0 @ replicate (4096 - 4 * n_chan) 0 @ (le_bytes 4 hb @ replicate 12 0) @ replicate 16 0 @ replicate 40 0 @ replicate 10 0 @ replicate 10 0 @ le_bytes 4 db @ (if schema \<ge> 8 then replicate 2048 0 @ replicate 2048 0 else []) @ data)"
    using drop_at [OF D_ctime] by simp

  have R_pid: "\<And>unpack k. rd f (24) 4 unpack k = ebind (unpack (replicate 4 0)) (\<lambda>v. k v (24 + 4))"
    by (rule rd_at [OF D_pid]) simp

  have D_sid: "drop (28) f = replicate 4 0 @ (replicate 80 0 @ replicate 80 0 @ replicate 80 0 @ replicate 80 0 @ replicate 8 0 @ le_bytes 4 (int n_chan) @ replicate 4 0 @ replicate (4 * n_chan) 0 @ replicate (4096 - 4 * n_chan) 0 @ (le_bytes 4 hb @ replicate 12 0) @ replicate 16 0 @ replicate 40 0 @ replicate 10 0 @ replicate 10 0 @ le_bytes 4 db @ (if schema \<ge> 8 then replicate 2048 0 @ replicate 2048 0 else []) @ data)"
    using drop_at [OF D_pid] by simp

  have R_sid: "\<And>unpack k. rd f (28) 4 unpack k = ebind (unpack (replicate 4 0)) (\<lambda>v. k v (28 + 4))"
    by (rule rd_at [OF D_sid]) simp

  have D_lastn: "drop (32) f = replicate 80 0 @ (replicate 80 0 @ replicate 80 0 @ replicate 80 0 @ replicate 8 0 @ le_bytes 4 (int n_chan) @ replicate 4 0 @ replicate (4 * n_chan) 0 @ replicate (4096 - 4 * n_chan) 0 @ (le_bytes 4 hb @ replicate 12 0) @ replicate 16 0 @ replicate 40 0 @ replicate 10 0 @ replicate 10 0 @ le_bytes 4 db @ (if schema \<ge> 8 then replicate 2048 0 @ replicate 2048 0 else []) @ data)"
    using drop_at [OF D_sid] by simp

  have R_lastn: "\<And>unpack k. rd f (32) 80 unpack k = ebind (unpack (replicate 80 0)) (\<lambda>v. k v (32 + 80))"
    by (rule rd_at [OF D_lastn]) simp

  have D_firstn: "drop (112) f = replicate 80 0 @ (replicate 80 0 @ replicate 80 0 @ replicate 8 0 @ le_bytes 4 (int n_chan) @ replicate 4 0 @ replicate (4 * n_chan) 0 @ replicate (4096 - 4 * n_chan) 0 @ (le_bytes 4 hb @ replicate 12 0) @ replicate 16 0 @ replicate 40 0 @ replicate 10 0 @ replicate 10 0 @ le_bytes 4 db @ (if schema \<ge> 8 then replicate 2048 0 @ replicate 2048 0 else []) @ data)"
    using drop_at [OF D_lastn] by simp

  have R_firstn: "\<And>unpack k. rd f (112) 80 unpack k = ebind (unpack (replicate 80 0)) (\<lambda>v. k v (112 + 80))"
    by (rule rd_at [OF D_firstn]) simp

  have D_middlen: "drop (192) f = replicate 80 0 @ (replicate 80 0 @ replicate 8 0 @ le_bytes 4 (int n_chan) @ replicate 4 0 @ replicate (4 * n_chan) 0 @ replicate (4096 - 4 * n_chan) 0 @ (le_bytes 4 hb @ replicate 12 0) @ replicate 16 0 @ replicate 40 0 @ replicate 10 0 @ replicate 10 0 @ le_bytes 4 db @ (if schema \<ge> 8 then replicate 2048 0 @ replicate 2048 0 else []) @ data)"
    using drop_at [OF D_firstn] by simp

  have R_middlen: "\<And>unpack k. rd f (192) 80 unpack k = ebind (unpack (replicate 80 0)) (\<lambda>v. k v (192 + 80))"
    by (rule rd_at [OF D_middlen]) simp

  have D_pidstr: "drop (272) f = replicate 80 0 @ (replicate 8 0 @ le_bytes 4 (int n_chan) @ replicate 4 0 @ replicate (4 * n_chan) 0 @ replicate (4096 - 4 * n_chan) 0 @ (le_bytes 4 hb @ replicate 12 0) @ replicate 16 0 @ replicate 40 0 @ replicate 10 0 @ replicate 10 0 @ le_bytes 4 db @ (if schema \<ge> 8 then replicate 2048 0 @ replicate 2048 0 else []) @ data)"
    using drop_at [OF D_middlen] by simp

  have R_pidstr: "\<And>unpack k. rd f (272) 80 unpack k = ebind (unpack (replicate 80 0)) (\<lambda>v. k v (272 + 80))"
    by (rule rd_at [OF D_pidstr]) simp

  have D_sfreq: "drop (352) f = replicate 8 0 @ (le_bytes 4 (int n_chan) @ replicate 4 0 @ replicate (4 * n_chan) 0 @ replicate (4096 - 4 * n_chan) 0 @ (le_bytes 4 hb @ replicate 12 0) @ replicate 16 0 @ replicate 40 0 @ replicate 10 0 @ replicate 10 0 @ le_bytes 4 db @ (if schema \<ge> 8 then replicate 2048 0 @ replicate 2048 0 else []) @ data)"
    using drop_at [OF D_pidstr] by simp

  have R_sfreq: "\<And>unpack k. rd f (352) 8 unpack k = ebind (unpack (replicate 8 0)) (\<lambda>v. k v (352 + 8))"
    by (rule rd_at [OF D_sfreq]) simp

  have D_nchan: "drop (360) f = le_bytes 4 (int n_chan) @ (replicate 4 0 @ replicate (4 * n_chan) 0 @ replicate (4096 - 4 * n_chan) 0 @ (le_bytes 4 hb @ replicate 12 0) @ replicate 16 0 @ replicate 40 0 @ replicate 10 0 @ replicate 10 0 @ le_bytes 4 db @ (if schema \<ge> 8 then replicate 2048 0 @ replicate 2048 0 else []) @ data)"
    using drop_at [OF D_sfreq] by simp

  have R_nchan: "\<And>unpack k. rd f (360) 4 unpack k = ebind (unpack (le_bytes 4 (int n_chan))) (\<lambda>v. k v (360 + 4))"
    by (rule rd_at [OF D_nchan]) simp

  have D_dbits: "drop (364) f = replicate 4 0 @ (replicate (4 * n_chan) 0 @ replicate (4096 - 4 * n_chan) 0 @ (le_bytes 4 hb @ replicate 12 0) @ replicate 16 0 @ replicate 40 0 @ replicate 10 0 @ replicate 10 0 @ le_bytes 4 db @ (if schema \<ge> 8 then replicate 2048 0 @ replicate 2048 0 else []) @ data)"
    using drop_at [OF D_nchan] by simp

  have R_dbits: "\<And>unpack k. rd f (364) 4 unpack k = ebind (unpack (replicate 4 0)) (\<lambda>v. k v (364 + 4))"
    by (rule rd_at [OF D_dbits]) simp

  have D_phys: "drop (368) f = replicate (4 * n_chan) 0 @ (replicate (4096 - 4 * n_chan) 0 @ (le_bytes 4 hb @ replicate 12 0) @ replicate 16 0 @ replicate 40 0 @ replicate 10 0 @ replicate 10 0 @ le_bytes 4 db @ (if schema \<ge> 8 then replicate 2048 0 @ replicate 2048 0 else []) @ data)"
    using drop_at [OF D_dbits] by simp

  have D_pad: "drop (368 + 4 * n_chan) f = replicate (4096 - 4 * n_chan) 0 @ ((le_bytes 4 hb @ replicate 12 0) @ replicate 16 0 @ replicate 40 0 @ replicate 10 0 @ replicate 10 0 @ le_bytes 4 db @ (if schema \<ge> 8 then replicate 2048 0 @ replicate 2048 0 else []) @ data)"
    using drop_at [OF D_phys] assms(2) by simp

  have D_hbt: "drop (4464) f = (le_bytes 4 hb @ replicate 12 0) @ (replicate 16 0 @ replicate 40 0 @ replicate 10 0 @ replicate 10 0 @ le_bytes 4 db @ (if schema \<ge> 8 then replicate 2048 0 @ replicate 2048 0 else []) @ data)"
    using drop_at [OF D_pad] assms(2) by simp

  have R_hbt: "\<And>unpack k. rd f (4464) 16 unpack k = ebind (unpack ((le_bytes 4 hb @ replicate 12 0))) (\<lambda>v. k v (4464 + 16))"
    by (rule rd_at [OF D_hbt]) simp

  have D_hsn: "drop (4480) f = replicate 16 0 @ (replicate 40 0 @ replicate 10 0 @ replicate 10 0 @ le_bytes 4 db @ (if schema \<ge> 8 then replicate 2048 0 @ replicate 2048 0 else []) @ data)"
    using drop_at [OF D_hbt] by simp

  have R_hsn: "\<And>unpack k. rd f (4480) 16 unpack k = ebind (unpack (replicate 16 0)) (\<lambda>v. k v (4480 + 16))"
    by (rule rd_at [OF D_hsn]) simp

  have D_sw: "drop (4496) f = replicate 40 0 @ (replicate 10 0 @ replicate 10 0 @ le_bytes 4 db @ (if schema \<ge> 8 then replicate 2048 0 @ replicate 2048 0 else []) @ data)"
    using drop_at [OF D_hsn] by simp

  have R_sw: "\<And>unpack k. rd f (4496) 40 unpack k = ebind (unpack (replicate 40 0)) (\<lambda>v. k v (4496 + 40))"
    by (rule rd_at [OF D_sw]) simp

  have D_dhw: "drop (4536) f = replicate 10 0 @ (replicate 10 0 @ le_bytes 4 db @ (if schema \<ge> 8 then replicate 2048 0 @ replicate 2048 0 else []) @ data)"
    using drop_at [OF D_sw] by simp

  have R_dhw: "\<And>unpack k. rd f (4536) 10 unpack k = ebind (unpack (replicate 10 0)) (\<lambda>v. k v (4536 + 10))"
    by (rule rd_at [OF D_dhw]) simp

  have D_dsw: "drop (4546) f = replicate 10 0 @ (le_bytes 4 db @ (if schema \<ge> 8 then replicate 2048 0 @ replicate 2048 0 else []) @ data)"
    using drop_at [OF D_dhw] by simp

  have R_dsw: "\<And>unpack k. rd f (4546) 10 unpack k = ebind (unpack (replicate 10 0)) (\<lambda>v. k v (4546 + 10))"
    by (rule rd_at [OF D_dsw]) simp

  have D_db: "drop (4556) f = le_bytes 4 db @ ((if schema \<ge> 8 then replicate 2048 0 @ replicate 2048 0 else []) @ data)"
    using drop_at [OF D_dsw] by simp

  have R_db: "\<And>unpack k. rd f (4556) 4 unpack k = ebind (unpack (le_bytes 4 db)) (\<lambda>v. k v (4556 + 4))"
    by (rule rd_at [OF D_db]) simp

  have D_tail: "drop 4560 f = (if schema \<ge> 8 then replicate 2048 0 @ replicate 2048 0 else []) @ data"
    using drop_at [OF D_db] by simp

  have phys: "read_phys_chan f 368 (int n_chan) = Inr (replicate n_chan 0)"
  proof -
    have z: "unpack_i_n n_chan (replicate (n_chan * 4) 0) = Inr (replicate n_chan 0)"
      using unpack_i_n_zeros [of n_chan] by (simp add: mult.commute)
    have "slice f 368 (368 + 4 * n_chan) = replicate (4 * n_chan) 0"
      using slice_at [OF D_phys, of "4 * n_chan"] by simp
    then have "slice f 368 (368 + n_chan * 4) = replicate (n_chan * 4) 0"
      by (simp add: mult.commute)
    then show ?thesis using z by (simp add: read_phys_chan_def)
  qed
  have ext8: "read_hdr_8 f 4560 h
      = Inr (if file_schema h \<ge> 8
             then h\<lparr>shorted := Some (replicate 1024 0), frequency_factor := Some (replicate 1024 0)\<rparr>
             else h)" if "file_schema h = schema" for h
  proof (cases "schema \<ge> 8")
    case True
    have d1: "drop 4560 f = replicate 2048 0 @ (replicate 2048 0 @ data)"
      using D_tail True by simp
    have d2: "drop 6608 f = replicate 2048 0 @ data" using drop_at [OF d1] by simp
    have r1: "\<And>unpack k. rd f 4560 2048 unpack k
        = ebind (unpack (replicate 2048 0)) (\<lambda>v. k v (4560 + 2048))"
      by (rule rd_at [OF d1]) simp
    have r2: "\<And>unpack k. rd f 6608 2048 unpack k
        = ebind (unpack (replicate 2048 0)) (\<lambda>v. k v (6608 + 2048))"
      by (rule rd_at [OF d2]) simp
    show ?thesis using True that by (simp add: read_hdr_8_def r1 r2 uz2048)
  next
    case False
    then show ?thesis using that by (simp add: read_hdr_8_def)
  qed
  have s7: "7 \<le> schema" using assms(1) by auto
  have "read_hdr_file f = Inr (example_hdr schema n_chan hb db)"
    using assms(1) s7
    unfolding read_hdr_file_def read_hdr_7_def
    by (simp add: R_guid R_schema R_base R_ctime R_pid R_sid R_lastn R_firstn R_middlen
        R_pidstr R_sfreq R_nchan R_dbits R_hbt R_hsn R_sw R_dhw R_dsw R_db phys ext8
        us ub un ud uh uz16 unpack_str_zeros unpack_i_zeros unpack_d_zeros example_hdr_def)
  then show ?thesis by (simp add: f_def)
qed

lemma example_erd_data:
  assumes "schema \<in> {7, 8, 9}" and "n_chan \<le> 1024"
  shows "drop (erd_start schema) (example_erd schema n_chan hb db data) = data"
  using assms by (auto simp: example_erd_def erd_start_def)

lemma slice_after:
  assumes "drop i0 f = data" and "i0 \<le> p"
  shows "slice f p q = slice data (p - i0) (q - i0)"
proof -
  have "drop p f = drop (p - i0) (drop i0 f)" using assms(2) by simp
  then show ?thesis using assms by (simp add: slice_def)
qed

lemma map_length_mat_set [simp]: "map length (mat_set out r c v) = map length out"
proof (cases "r < length out")
  case True
  then show ?thesis by (simp add: mat_set_def map_update list_update_same_conv)
next
  case False
  then have "out[r := (out ! r)[c := v]] = out" by (intro list_update_beyond) simp
  then show ?thesis by (simp add: mat_set_def)
qed






section \<open>The conversion factor of headbox type 1\<close>

text \<open>
  C9, as stated: for headbox type 1 and no discard bits every entry of the factor is
  approximately \<open>3.94e-5\<close>. The source divides 8711 by \<open>221 - 0.5\<close>, so the entry is
  \<open>8711 / 220.5 * 1e-6\<close>, which is \<open>3.9506e-5\<close>: it differs from \<open>3.94e-5\<close> by more
  than \<open>1e-7\<close>, that is in the third significant digit, the last one the claim gives.
  Shown for four channels.
\<close>

theorem conversion_headbox1_not_394:
  "\<exists>c. calculate_conversion (example_hdr 8 4 1 0) = Inr [c, c, c, c]
     \<and> \<bar>c - 394 / 10 ^ 7\<bar> > 1 / 10 ^ 7"
  by (rule exI [of _ "8711 / 220500000"])
    (simp add: calculate_conversion_def example_hdr_def getkey_def ones_def scale_def
      pow2_def py_take_def numeral_eq_Suc)

text \<open>
  C9, amended: for headbox type 1 with \<open>discard_bits = 0\<close> the conversion factor has
  one entry per channel, all equal to \<open>8711 / 220.5 * 2 ^ 0 * 1e-6\<close>, which lies
  between \<open>3.9505e-5\<close> and \<open>3.9506e-5\<close> (approximately \<open>3.95e-5\<close>).
\<close>

theorem conversion_headbox1:
  assumes "headbox_type h = Some (1 # ts)" and "discardbits h = Some 0"
    and "num_channels h = Some n" and "0 \<le> n"
  shows "calculate_conversion h = Inr (replicate (nat n) (8711 / 220.5 * 2 ^ 0 * (1 / 10 ^ 6)))
    \<and> 39505 / 10 ^ 9 < (8711 / 220.5 * 2 ^ 0 * (1 / 10 ^ 6) :: real)
    \<and> (8711 / 220.5 * 2 ^ 0 * (1 / 10 ^ 6) :: real) < 39506 / 10 ^ 9"
  using assms
  by (simp add: calculate_conversion_def getkey_def ones_def scale_def pow2_def py_take_def)

theorem conversion_headbox1_witness:
  "calculate_conversion (example_hdr 7 3 1 0)
     = Inr (replicate 3 (8711 / 220.5 * 2 ^ 0 * (1 / 10 ^ 6)))"
  using conversion_headbox1 [of "example_hdr 7 3 1 0" "[0, 0, 0]" 3]
  by (simp add: example_hdr_def)

section \<open>Unsupported schemas\<close>

text \<open>
  C7: a header whose schema field (the two bytes after the sixteen of the identifier)
  is not 1, 7, 8 or 9 makes \<open>_read_hdr_file\<close> raise NotImplementedError for the file
  schema, and one with a supported schema whose base-schema field (the next two
  bytes) is not 1 makes it raise NotImplementedError for the base schema. In both
  cases the result is the exception: no header is returned, whatever follows.
\<close>

theorem read_hdr_file_unsupported:
  assumes "length guid = 16"
  shows "(nat (le_uint [s0, s1]) \<notin> {1, 7, 8, 9} \<longrightarrow>
            read_hdr_file (guid @ [s0, s1] @ rest)
              = Inl (NotImplementedError_file_schema (nat (le_uint [s0, s1]))))
       \<and> (nat (le_uint [s0, s1]) \<in> {1, 7, 8, 9} \<and> nat (le_uint [b0, b1]) \<noteq> 1 \<longrightarrow>
            read_hdr_file (guid @ [s0, s1, b0, b1] @ rest)
              = Inl (NotImplementedError_base_schema (nat (le_uint [b0, b1]))))"
  using assms
  by (simp add: read_hdr_file_def rd_def slice_def unpack_H_def Let_def)

theorem read_hdr_file_unsupported_witness:
  "read_hdr_file (replicate 16 0 @ [5, 0] @ replicate 334 0) = Inl (NotImplementedError_file_schema 5)
   \<and> read_hdr_file (replicate 16 0 @ [7, 0, 0, 0] @ replicate 332 0)
       = Inl (NotImplementedError_base_schema 0)"
  using read_hdr_file_unsupported [of "replicate 16 0" 5 0 "replicate 334 0" 0 0]
    read_hdr_file_unsupported [of "replicate 16 0" 7 0 "replicate 332 0" 0 0]
  by simp

section \<open>Decoding reproduces the accumulated values\<close>

text \<open>
  C1: for a header of schema 7, 8 or 9 with at least one channel, and a file whose
  bytes from the start of the samples are the reference encoding of \<open>n_samples\<close> valid
  samples (followed by anything), the decoder returns a matrix of \<open>n_chan\<close> rows and
  \<open>n_samples\<close> columns in which every value is what the sample's item makes of the
  value before it in the row: the previous value plus the delta for a narrow (8-bit)
  or wide (16-bit) delta, the literal value for an absolute value. The value before
  sample 0 is 0.
\<close>

theorem erd_output_roundtrip:
  assumes "file_schema h \<in> {7, 8, 9}"
    and "num_channels h = Some (int n_chan)" and "1 \<le> n_chan"
    and "list_all (valid_sample (file_schema h) n_chan) samples"
    and "length samples = n_samples"
    and "drop (erd_start (file_schema h)) filebytes = encode (file_schema h) samples @ rest"
  shows "\<exists>out. erd_output h filebytes (int n_samples) = Inr out \<and> length out = n_chan
    \<and> (\<forall>c < n_chan. length (out ! c) = n_samples
          \<and> (\<forall>s < n_samples. out ! c ! s
                = next_value (if s = 0 then 0 else out ! c ! (s - 1)) (snd (samples ! s) ! c)))"
proof -
  have le: "length samples \<le> n_samples" and fin: "length samples = n_samples \<or> rest = []"
    using assms(5) by simp_all
  from erd_output_encoded [OF assms(1) assms(2) assms(4) assms(6) le fin]
  show ?thesis using assms(5) by blast
qed

theorem erd_output_roundtrip_witness:
  "\<exists>out. erd_output (example_hdr 8 2 1 0)
       (replicate 8656 0 @ encode 8 [(False, [Narrow 5, Wide 300]),
                                      (True, [Absolute 1000, Narrow (- 128)])]) 2 = Inr out
     \<and> out ! 0 ! 0 = 5 \<and> out ! 0 ! 1 = 1000 \<and> out ! 1 ! 0 = 300 \<and> out ! 1 ! 1 = 172"
proof -
  let ?h = "example_hdr 8 2 1 0"
  let ?samples = "[(False, [Narrow 5, Wide 300]), (True, [Absolute 1000, Narrow (- 128)])]"
  let ?f = "replicate 8656 0 @ encode 8 ?samples"
  have 1: "file_schema ?h \<in> {7, 8, 9}" by (simp add: example_hdr_def)
  have 2: "num_channels ?h = Some (int 2)" by (simp add: example_hdr_def)
  have 3: "1 \<le> (2::nat)" by simp
  have 4: "list_all (valid_sample (file_schema ?h) 2) ?samples"
    by (simp add: example_hdr_def valid_sample_def valid_item_def)
  have 5: "length ?samples = 2" by simp
  have 6: "drop (erd_start (file_schema ?h)) ?f = encode (file_schema ?h) ?samples @ []"
    by (simp add: example_hdr_def erd_start_def)
  from erd_output_roundtrip [OF 1 2 3 4 5 6] obtain out where
    r: "erd_output ?h ?f (int 2) = Inr out"
    and p: "\<forall>c < 2. length (out ! c) = 2
          \<and> (\<forall>s < 2. out ! c ! s
                = next_value (if s = 0 then 0 else out ! c ! (s - 1)) (snd (?samples ! s) ! c))"
    by blast
  have c0: "\<forall>s < 2. out ! 0 ! s
      = next_value (if s = 0 then 0 else out ! 0 ! (s - 1)) (snd (?samples ! s) ! 0)"
    using p by simp
  have c1: "\<forall>s < 2. out ! 1 ! s
      = next_value (if s = 0 then 0 else out ! 1 ! (s - 1)) (snd (?samples ! s) ! 1)"
    using p by simp
  have a: "out ! 0 ! 0 = 5" using c0 [rule_format, of 0] by (simp add: next_value_def)
  have b: "out ! 0 ! 1 = 1000" using c0 [rule_format, of 1] by (simp add: next_value_def)
  have c: "out ! 1 ! 0 = 300" using c1 [rule_format, of 0] by (simp add: next_value_def)
  have d: "out ! 1 ! 1 = 172" using c1 [rule_format, of 1] c by (simp add: next_value_def)
  show ?thesis using r a b c d by simp
qed

section \<open>Narrow channels are never escapes in schemas 8 and 9\<close>

text \<open>
  A run of the loop over the channels changes \<open>absvalue\<close> only at channels whose mask
  bit is 1, when the escape value is two bytes long.
\<close>

lemma read_deltas_narrow_flags:
  assumes "length esc = 2"
    and "read_deltas fb esc ns sam ms i_c i out av = Inr (i', out', av')"
  shows "length av' = length av
    \<and> (\<forall>c < length av. (c < i_c \<or> i_c + length ms \<le> c \<longrightarrow> av' ! c = av ! c)
          \<and> (i_c \<le> c \<and> c < i_c + length ms \<and> \<not> ms ! (c - i_c) \<longrightarrow> av' ! c = av ! c))"
  using assms(2)
proof (induction ms arbitrary: i_c i out av)
  case Nil
  then show ?case by simp
next
  case (Cons m ms)
  show ?case
  proof (cases m)
    case False
    have ne: "slice fb i (i + 1) \<noteq> esc" using assms(1) by (auto simp: slice_def)
    from Cons.prems False ne obtain d where
      r: "read_deltas fb esc ns sam ms (Suc i_c) (i + 1)
            (mat_set out i_c sam (out ! i_c ! prev_col ns sam + d)) av = Inr (i', out', av')"
      by (auto simp: Let_def split: sum.splits)
    from Cons.IH [OF r] show ?thesis using False
      by (auto simp: nth_Cons' Suc_diff_le)
  next
    case True
    show ?thesis
    proof (cases "slice fb i (i + 2) = esc")
      case e: True
      with Cons.prems True have
        r: "read_deltas fb esc ns sam ms (Suc i_c) (i + 2) out (av[i_c := True]) = Inr (i', out', av')"
        by (simp add: Let_def)
      from Cons.IH [OF r] show ?thesis using True
        by (auto simp: nth_Cons' Suc_diff_le nth_list_update)
    next
      case e: False
      with Cons.prems True obtain d where
        r: "read_deltas fb esc ns sam ms (Suc i_c) (i + 2)
            (mat_set out i_c sam (out ! i_c ! prev_col ns sam + d)) av = Inr (i', out', av')"
        by (auto simp: Let_def split: sum.splits)
      from Cons.IH [OF r] show ?thesis using True
        by (auto simp: nth_Cons' Suc_diff_le)
    qed
  qed
qed

text \<open>
  C10: in schemas 8 and 9 the escape value is the two bytes \<open>0xFF 0xFF\<close>. A channel
  whose mask bit is 0 reads one byte, which is never the escape value: the byte is
  decoded as a signed 8-bit delta and \<open>absvalue\<close> is left as it was. A channel whose
  mask bit is 1 is marked for an absolute value exactly when its two bytes are
  \<open>0xFF 0xFF\<close>. The narrow byte \<open>0x80\<close> is the delta \<open>-128\<close>. After the loop over
  the channels of a sample, every marked channel is one whose mask bit is 1.
\<close>

theorem narrow_never_escape:
  assumes "schema = 8 \<or> schema = 9"
  shows "read_deltas fb (abs_delta schema) ns sam (False # ms) i_c i out av
      = (case unpack_b (slice fb i (i + 1)) of
           Inl e \<Rightarrow> Inl e
         | Inr d \<Rightarrow> read_deltas fb (abs_delta schema) ns sam ms (Suc i_c) (i + 1)
                     (mat_set out i_c sam (out ! i_c ! prev_col ns sam + d)) av)
    \<and> read_deltas fb (abs_delta schema) ns sam (True # ms) i_c i out av
      = (if slice fb i (i + 2) = [0xFF, 0xFF] then
           read_deltas fb (abs_delta schema) ns sam ms (Suc i_c) (i + 2) out (av[i_c := True])
         else
           (case unpack_h (slice fb i (i + 2)) of
              Inl e \<Rightarrow> Inl e
            | Inr d \<Rightarrow> read_deltas fb (abs_delta schema) ns sam ms (Suc i_c) (i + 2)
                        (mat_set out i_c sam (out ! i_c ! prev_col ns sam + d)) av))
    \<and> unpack_b [0x80] = Inr (- 128)
    \<and> (\<forall>i' out' av'.
          read_deltas fb (abs_delta schema) ns sam ms 0 i out (replicate n_chan False)
            = Inr (i', out', av')
          \<longrightarrow> (\<forall>c < n_chan. av' ! c \<longrightarrow> c < length ms \<and> ms ! c))"
proof -
  have esc: "abs_delta schema = [0xFF, 0xFF]" using assms by (auto simp: abs_delta_def)
  have ne: "slice fb i (i + 1) \<noteq> [0xFF, 0xFF]"
  proof
    assume "slice fb i (i + 1) = [0xFF, 0xFF]"
    then have "length (slice fb i (i + 1)) = 2" by simp
    moreover have "length (slice fb i (i + 1)) \<le> 1" by (simp add: slice_def)
    ultimately show False by simp
  qed
  have 1: "read_deltas fb (abs_delta schema) ns sam (False # ms) i_c i out av
      = (case unpack_b (slice fb i (i + 1)) of
           Inl e \<Rightarrow> Inl e
         | Inr d \<Rightarrow> read_deltas fb (abs_delta schema) ns sam ms (Suc i_c) (i + 1)
                     (mat_set out i_c sam (out ! i_c ! prev_col ns sam + d)) av)"
    using ne unfolding esc by (simp add: Let_def cong: sum.case_cong)
  have 2: "read_deltas fb (abs_delta schema) ns sam (True # ms) i_c i out av
      = (if slice fb i (i + 2) = [0xFF, 0xFF] then
           read_deltas fb (abs_delta schema) ns sam ms (Suc i_c) (i + 2) out (av[i_c := True])
         else
           (case unpack_h (slice fb i (i + 2)) of
              Inl e \<Rightarrow> Inl e
            | Inr d \<Rightarrow> read_deltas fb (abs_delta schema) ns sam ms (Suc i_c) (i + 2)
                        (mat_set out i_c sam (out ! i_c ! prev_col ns sam + d)) av))"
    unfolding esc by (simp add: Let_def cong: sum.case_cong)
  have 3: "unpack_b [0x80] = Inr (- 128)" by (simp add: unpack_b_def to_signed_def)
  have 4: "c < length ms \<and> ms ! c"
    if r: "read_deltas fb (abs_delta schema) ns sam ms 0 i out (replicate n_chan False)
            = Inr (i', out', av')"
      and c: "c < n_chan" and t: "av' ! c" for i' out' av' c
  proof -
    have l: "length (abs_delta schema) = 2" by (simp add: esc)
    from read_deltas_narrow_flags [OF l r]
    have f: "(c < 0 \<or> 0 + length ms \<le> c \<longrightarrow> av' ! c = replicate n_chan False ! c)
        \<and> (0 \<le> c \<and> c < 0 + length ms \<and> \<not> ms ! (c - 0) \<longrightarrow> av' ! c = replicate n_chan False ! c)"
      using c by simp
    show ?thesis
    proof (rule ccontr)
      assume "\<not> (c < length ms \<and> ms ! c)"
      then have "av' ! c = replicate n_chan False ! c" using f by auto
      then show False using t c by simp
    qed
  qed
  show ?thesis using 1 2 3 4 by blast
qed

theorem narrow_never_escape_witness:
  "read_deltas [0x80] (abs_delta 8) 1 0 [False] 0 0 [[0]] [False] = Inr (1, [[- 128]], [False])
   \<and> read_deltas [0xFF, 0xFF] (abs_delta 8) 1 0 [True] 0 0 [[0]] [False] = Inr (2, [[0]], [True])"
  using narrow_never_escape [of 8 "[0x80]" 1 0 "[]" 0 0 "[[0]]" "[False]" 1]
    narrow_never_escape [of 8 "[0xFF, 0xFF]" 1 0 "[]" 0 0 "[[0]]" "[False]" 1]
  by (simp add: slice_def unpack_b_def to_signed_def mat_set_def prev_col_def abs_delta_def)

section \<open>The event byte and the conversion inside the decoder\<close>


lemma example_erd_7_data [simp]: "drop 4560 (example_erd 7 2 1 0 data) = data"
  using example_erd_data [of 7 2 1 0 data] by (simp add: erd_start_def)

lemma example_erd_7_slice [simp]:
  "4560 \<le> p \<Longrightarrow>
   slice (example_erd 7 2 1 0 data) p q = take (q - p) (drop (p - 4560) data)"
  using slice_after [of 4560 "example_erd 7 2 1 0 data" data p q] by (simp add: slice_def)

lemma example_hdr_7_read [simp]:
  "read_hdr_file (example_erd 7 2 1 0 data) = Inr (example_hdr 7 2 1 0)"
  by (rule read_hdr_example) simp_all

lemma replicate_2: "replicate 2 x = [x, x]"
  by (simp add: numeral_2_eq_2)

lemma example_hdr_7_conversion:
  "calculate_conversion (example_hdr 7 2 1 0) = Inr [8711 / 220500000, 8711 / 220500000]"
  by (simp add: calculate_conversion_def getkey_def example_hdr_def ones_def scale_def
      pow2_def py_take_def replicate_2)

lemma erd_output_bad_event:
  "erd_output (example_hdr 7 2 1 0) (example_erd 7 2 1 0 [e, 0x05, 0xFD]) 1 = Inr [[5], [- 3]]"
  by (simp add: erd_output_def getkey_def example_hdr_def erd_start_def zeros_def
      erd_samples.simps [of _ _ _ _ 0] erd_samples_done read_sample_def read_deltamask_def
      abs_delta_def unpack_b_def to_signed_def mat_set_def prev_col_def Let_def
      replicate_2)

text \<open>
  C3 says that the decoder fails on an event byte other than 0 and 1. The source
  asserts it and builds the exception in the handler, but never raises it. On the
  example file with two channels, one sample and the event byte \<open>0x02\<close>, \<open>_read_erd\<close>
  returns the decoded and converted sample, the same matrix as with the event byte
  \<open>0x00\<close>.
\<close>

theorem bad_event_byte_not_raised:
  "read_erd (example_erd 7 2 1 0 [0x02, 0x05, 0xFD]) 1
       = Inr [[8711 / 220500000 * 5], [8711 / 220500000 * (- 3)]]
   \<and> read_erd (example_erd 7 2 1 0 [0x00, 0x05, 0xFD]) 1
       = Inr [[8711 / 220500000 * 5], [8711 / 220500000 * (- 3)]]"
  by (simp add: read_erd_def erd_output_bad_event example_hdr_7_conversion apply_factor_def)




section \<open>Streams that end early\<close>

text \<open>
  A stream that ends inside a sample: some read of the sample gets fewer bytes than
  its format, and \<open>unpack\<close> raises.
\<close>

lemma split_long:
  assumes "xs @ ys = p @ q" and "length xs \<le> length p"
  obtains p' where "p = xs @ p'" and "ys = p' @ q"
  using assms by (auto simp: append_eq_append_conv2)

lemma split_short:
  assumes "xs @ ys = p @ q" and "length p < length xs"
  obtains q' where "q' \<noteq> []" and "xs = p @ q'"
  using assms by (auto simp: append_eq_append_conv2)

lemma length_abs_delta: "length (abs_delta schema) = (if schema = 7 then 1 else 2)"
  by (simp add: abs_delta_def)

lemma mask_bit_not_7: "valid_item schema it \<Longrightarrow> mask_bit schema it \<Longrightarrow> schema \<noteq> 7"
  by (cases it) (auto simp: valid_item_def mask_bit_def)

lemma slice_short:
  assumes "drop i fb = p" and "length p < n"
  shows "slice fb i (i + n) = p"
  using assms by (simp add: slice_def)

lemma read_deltas_truncated:
  assumes "list_all (valid_item schema) items"
    and "concat (map (slot_bytes schema) items) = p @ q" and "q \<noteq> []"
    and "drop i fb = p"
  shows "read_deltas fb (abs_delta schema) ns sam (map (mask_bit schema) items) ic i out av
    = Inl StructError"
  using assms
proof (induction items arbitrary: p i ic out av)
  case Nil
  then show ?case by simp
next
  case (Cons it its)
  let ?w = "if mask_bit schema it then 2 else (1::nat)"
  let ?slot = "slot_bytes schema it"
  have v: "valid_item schema it" and vs: "list_all (valid_item schema) its"
    using Cons.prems(1) by simp_all
  have len: "length ?slot = ?w" by (rule length_slot_bytes)
  have c: "?slot @ concat (map (slot_bytes schema) its) = p @ q" using Cons.prems(2) by simp
  show ?case
  proof (cases "?w \<le> length p")
    case True
    then have "length ?slot \<le> length p" using len by simp
    from split_long [OF c this] obtain p' where p: "p = ?slot @ p'"
      and r: "concat (map (slot_bytes schema) its) = p' @ q" by blast
    have d: "drop i fb = ?slot @ p'" using Cons.prems(4) p by simp
    have val: "slice fb i (i + ?w) = ?slot" using slice_at [OF d, of ?w] len by simp
    have d': "drop (i + ?w) fb = p'" using drop_at [OF d] len by simp
    note IH = Cons.IH [OF vs r Cons.prems(3) d']
    show ?thesis
    proof (cases "is_abs it")
      case True
      then have "?slot = abs_delta schema" using slot_is_esc [OF v] by simp
      then show ?thesis using val True IH
        by (cases "mask_bit schema it") (simp_all add: Let_def)
    next
      case False
      then have ne: "?slot \<noteq> abs_delta schema" using slot_is_esc [OF v] by simp
      have u: "(if mask_bit schema it then unpack_h ?slot else unpack_b ?slot)
          = Inr (next_value (out ! ic ! prev_col ns sam) it - out ! ic ! prev_col ns sam)"
        by (rule slot_unpack [OF v False])
      show ?thesis using val ne u IH
        by (cases "mask_bit schema it") (simp_all add: Let_def)
    qed
  next
    case False
    then have short: "length p < ?w" by simp
    have val: "slice fb i (i + ?w) = p" by (rule slice_short [OF Cons.prems(4) short])
    have ne: "p \<noteq> abs_delta schema"
    proof
      assume "p = abs_delta schema"
      then have lp: "length p = (if schema = 7 then 1 else 2)" by (simp add: length_abs_delta)
      show False
      proof (cases "mask_bit schema it")
        case True
        then have "schema \<noteq> 7" by (rule mask_bit_not_7 [OF v])
        then show False using lp short True by simp
      next
        case False
        then show False using lp short False by (simp split: if_splits)
      qed
    qed
    have u: "(if mask_bit schema it then unpack_h p else unpack_b p) = Inl StructError"
      using short by (auto simp: unpack_h_def unpack_b_def split: if_splits)
    show ?thesis using val ne u
      by (cases "mask_bit schema it") (simp_all add: Let_def)
  qed
qed

lemma read_abs_truncated:
  assumes "list_all (valid_item schema) items"
    and "concat (map abs_bytes items) = p @ q" and "q \<noteq> []"
    and "drop i fb = p"
  shows "read_abs fb sam (map is_abs items) ic i out = Inl StructError"
  using assms
proof (induction items arbitrary: p i ic out)
  case Nil
  then show ?case by simp
next
  case (Cons it its)
  have vs: "list_all (valid_item schema) its" using Cons.prems(1) by simp
  show ?case
  proof (cases it)
    case (Absolute v)
    have c: "le_bytes 4 v @ concat (map abs_bytes its) = p @ q"
      using Cons.prems(2) Absolute by simp
    show ?thesis
    proof (cases "4 \<le> length p")
      case True
      then have "length (le_bytes 4 v) \<le> length p" by simp
      from split_long [OF c this] obtain p' where p: "p = le_bytes 4 v @ p'"
        and r: "concat (map abs_bytes its) = p' @ q" by blast
      have d: "drop i fb = le_bytes 4 v @ p'" using Cons.prems(4) p by simp
      have val: "slice fb i (i + 4) = le_bytes 4 v" using slice_at [OF d, of 4] by simp
      have d': "drop (i + 4) fb = p'" using drop_at [OF d] by simp
      have u: "unpack_i (le_bytes 4 v) = Inr v"
        using Cons.prems(1) Absolute by (simp add: unpack_i_word valid_item_def)
      show ?thesis using Cons.IH [OF vs r Cons.prems(3) d'] val u Absolute by simp
    next
      case False
      then have short: "length p < 4" by simp
      have val: "slice fb i (i + 4) = p" by (rule slice_short [OF Cons.prems(4) short])
      have "unpack_i p = Inl StructError" using short by (simp add: unpack_i_def)
      then show ?thesis using val Absolute by simp
    qed
  next
    case (Narrow d)
    then show ?thesis using Cons.IH [OF vs _ Cons.prems(3) Cons.prems(4)] Cons.prems(2) by simp
  next
    case (Wide d)
    then show ?thesis using Cons.IH [OF vs _ Cons.prems(3) Cons.prems(4)] Cons.prems(2) by simp
  qed
qed

lemma read_sample_truncated:
  assumes "valid_sample schema n_chan s"
    and "sample_body schema (snd s) = p @ q" and "q \<noteq> []"
    and "drop i fb = p"
  shows "read_sample schema n_chan fb ns sam i out = Inl StructError"
proof -
  let ?items = "snd s"
  let ?m = "if schema = 7 then [] else mask_bytes (map (mask_bit schema) ?items)"
  let ?sl = "concat (map (slot_bytes schema) ?items)"
  let ?ab = "concat (map abs_bytes ?items)"
  have v: "list_all (valid_item schema) ?items" and n: "length ?items = n_chan"
    using assms(1) by (simp_all add: valid_sample_def)
  have c: "?m @ (?sl @ ?ab) = p @ q" using assms(2) by (simp add: sample_body_def)
  show ?thesis
  proof (cases "length ?m \<le> length p")
    case False
    then have short: "length p < length ?m" by simp
    then have s7: "schema \<noteq> 7" by (auto split: if_splits)
    have l: "length ?m = (n_chan + 7) div 8" using s7 n by (simp add: length_mask_bytes)
    have "slice fb i (i + (n_chan + 7) div 8) = p"
      using slice_short [OF assms(4), of "(n_chan + 7) div 8"] short l by simp
    then have "read_deltamask schema n_chan fb i = Inl StructError"
      using s7 short l by (simp add: read_deltamask_def unpack_B_n_def Let_def)
    then show ?thesis by (simp add: read_sample_def)
  next
    case True
    from split_long [OF c True] obtain p1 where p: "p = ?m @ p1"
      and c1: "?sl @ ?ab = p1 @ q" by blast
    define j1 where "j1 = i + length ?m"
    have d0: "drop i fb = ?m @ p1" using assms(4) p by simp
    from read_deltamask_encoded [OF v n d0] obtain dm where
      dm: "read_deltamask schema n_chan fb i = Inr (dm, j1)"
      and tk: "take n_chan dm = map (mask_bit schema) ?items" unfolding j1_def by blast
    have d1: "drop j1 fb = p1" unfolding j1_def using drop_at [OF d0] by simp
    show ?thesis
    proof (cases "length ?sl \<le> length p1")
      case False
      then have "length p1 < length ?sl" by simp
      from split_short [OF c1 this] obtain q1 where q1: "q1 \<noteq> []" and sl: "?sl = p1 @ q1"
        by blast
      have "read_deltas fb (abs_delta schema) ns sam (map (mask_bit schema) ?items) 0 j1 out
          (replicate n_chan False) = Inl StructError"
        by (rule read_deltas_truncated [OF v sl q1 d1])
      then show ?thesis unfolding read_sample_def dm by (simp add: tk)
    next
      case True
      from split_long [OF c1 True] obtain p2 where p1: "p1 = ?sl @ p2"
        and ab: "?ab = p2 @ q" by blast
      define j2 where "j2 = j1 + length ?sl"
      have d1': "drop j1 fb = ?sl @ p2" using d1 p1 by simp
      have rdl: "read_deltas fb (abs_delta schema) ns sam (map (mask_bit schema) ?items) 0
          j1 out (replicate n_chan False)
        = Inr (j2, delta_store ns sam 0 ?items out, mark_abs 0 ?items (replicate n_chan False))"
        unfolding j2_def by (rule read_deltas_encoded [OF v d1'])
      have mk: "mark_abs 0 ?items (replicate n_chan False) = map is_abs ?items"
        using mark_abs_fresh [of "[]" 0 ?items] n by simp
      have d2: "drop j2 fb = p2" unfolding j2_def using drop_at [OF d1'] by simp
      have "read_abs fb sam (map is_abs ?items) 0 j2 (delta_store ns sam 0 ?items out)
          = Inl StructError"
        by (rule read_abs_truncated [OF v ab assms(3) d2])
      then show ?thesis unfolding read_sample_def dm by (simp add: tk rdl mk)
    qed
  qed
qed

lemma erd_output_truncated:
  assumes sch: "file_schema h \<in> {7, 8, 9}"
    and nc: "num_channels h = Some (int n_chan)"
    and v: "list_all (valid_sample (file_schema h) n_chan) samples"
    and vs: "valid_sample (file_schema h) n_chan s"
    and d: "drop (erd_start (file_schema h)) filebytes = encode (file_schema h) samples @ p"
    and pq: "encode_sample (file_schema h) s = p @ q" and p: "p \<noteq> []" and q: "q \<noteq> []"
    and lt: "length samples < n_samples"
  shows "erd_output h filebytes (int n_samples) = Inl StructError"
proof -
  let ?schema = "file_schema h"
  let ?i0 = "erd_start ?schema"
  let ?z = "zeros n_chan n_samples"
  let ?out = "store_all n_samples 0 samples ?z"
  define j where "j = ?i0 + length (encode ?schema samples)"
  have lz: "length ?z = n_chan" by (simp add: zeros_def)
  have ns: "n_samples \<noteq> 0" using lt by simp
  have e0: "erd_output h filebytes (int n_samples)
      = erd_samples ?schema n_chan filebytes n_samples 0 ?i0 ?z"
    using ns nc sch by (simp add: erd_output_def getkey_def)
  have e1: "erd_samples ?schema n_chan filebytes n_samples 0 ?i0 ?z
      = erd_samples ?schema n_chan filebytes n_samples (0 + length samples) j ?out"
    unfolding j_def by (rule erd_samples_encoded [OF v d lz]) (use lt in simp)
  have dj: "drop j filebytes = p" unfolding j_def using drop_at [OF d] by simp
  obtain ev p' where pe: "p = ev # p'" using p by (cases p) auto
  have body: "sample_body ?schema (snd s) = p' @ q"
    using pq pe by (simp add: encode_sample_def sample_body_def)
  have dj': "drop j filebytes = [ev] @ p'" using dj pe by simp
  have ev: "slice filebytes j (Suc j) = [ev]" using slice_at [OF dj', of 1] by simp
  have dj1: "drop (Suc j) filebytes = p'" using drop_at [OF dj'] by simp
  have rs: "read_sample ?schema n_chan filebytes n_samples (length samples) (Suc j) ?out
      = Inl StructError"
    by (rule read_sample_truncated [OF vs body q dj1])
  have e2: "erd_samples ?schema n_chan filebytes n_samples (0 + length samples) j ?out
      = Inl StructError"
    using lt by (subst erd_samples.simps) (simp add: ev rs Let_def)
  show ?thesis using e0 e1 e2 by simp
qed

lemma example_7_encoded:
  "drop (erd_start (file_schema (example_hdr 7 2 1 0))) (example_erd 7 2 1 0 (data @ rest))
     = data @ rest"
  using example_erd_data [of 7 2 1 0 "data @ rest"] by (simp add: example_hdr_def)

lemma example_7_schema: "file_schema (example_hdr 7 2 1 0) \<in> {7, 8, 9}"
  by (simp add: example_hdr_def)

lemma example_7_channels: "num_channels (example_hdr 7 2 1 0) = Some (int 2)"
  by (simp add: example_hdr_def)

lemma example_7_schema_eq: "file_schema (example_hdr 7 2 1 0) = 7"
  by (simp add: example_hdr_def)

lemma example_7_sample:
  "valid_sample 7 2 (t, [Narrow 5, Narrow 6])" "valid_sample 7 2 (t, [Narrow 7, Narrow 1])"
  "encode 7 [(False, [Narrow 5, Narrow 6])] = [0, 5, 6]"
  "encode_sample 7 (False, [Narrow 7, Narrow 1]) = [0, 7] @ [1]"
  by (simp_all add: valid_sample_def valid_item_def encode_def encode_sample_def slot_bytes_def)

text \<open>
  C2, as stated: a stream cut inside sample \<open>N\<close> yields the \<open>N - 1\<close> samples decoded
  so far and an indication of the truncation, never a crash and never zeros in place
  of missing samples. For two channels of schema 7 and two samples asked for: the
  stream \<open>00 05 06 00 07\<close>, cut inside the second sample, makes the decoder raise
  struct.error; the stream \<open>00 05 06\<close>, which ends after the first sample, gives a
  matrix of two columns, the second one zeros, and nothing else.
\<close>

theorem truncated_stream_raises:
  "erd_output (example_hdr 7 2 1 0) (example_erd 7 2 1 0 [0, 5, 6, 0, 7]) 2 = Inl StructError
   \<and> erd_output (example_hdr 7 2 1 0) (example_erd 7 2 1 0 [0, 5, 6]) 2 = Inr [[5, 0], [6, 0]]"
proof -
  let ?h = "example_hdr 7 2 1 0"
  have v: "list_all (valid_sample (file_schema ?h) 2) [(False, [Narrow 5, Narrow 6])]"
    by (simp add: example_7_schema_eq example_7_sample)
  have vs: "valid_sample (file_schema ?h) 2 (False, [Narrow 7, Narrow 1])"
    by (simp add: example_7_schema_eq example_7_sample)
  have d: "drop (erd_start (file_schema ?h)) (example_erd 7 2 1 0 [0, 5, 6, 0, 7])
      = encode (file_schema ?h) [(False, [Narrow 5, Narrow 6])] @ [0, 7]"
    using example_7_encoded [of "[0, 5, 6]" "[0, 7]"]
    by (simp add: example_7_schema_eq example_7_sample)
  have pq: "encode_sample (file_schema ?h) (False, [Narrow 7, Narrow 1]) = [0, 7] @ [1]"
    by (simp only: example_7_schema_eq example_7_sample)
  have a: "erd_output ?h (example_erd 7 2 1 0 [0, 5, 6, 0, 7]) (int 2) = Inl StructError"
    by (rule erd_output_truncated [OF example_7_schema example_7_channels v vs d pq]) simp_all
  have b: "erd_output ?h (example_erd 7 2 1 0 [0, 5, 6]) 2 = Inr [[5, 0], [6, 0]]"
    by (simp add: erd_output_def getkey_def example_hdr_def erd_start_def zeros_def
      erd_samples.simps [of _ _ _ _ 0] erd_samples.simps [of _ _ _ _ "Suc 0"]
      read_sample_def read_deltamask_def
      abs_delta_def unpack_b_def to_signed_def mat_set_def prev_col_def Let_def
      replicate_2)
  show ?thesis using a b by simp
qed

text \<open>
  C2, amended: when the stream holds fewer complete samples than were asked for and
  ends exactly after the last of them, the decoder stops and returns the matrix of
  \<open>n_chan\<close> rows and \<open>n_samples\<close> columns whose first columns are the decoded
  samples and whose other columns are zero (the result carries no other indication).
  When the stream ends inside a sample (a non-empty part of the sample's bytes is
  there, and not all of them), the decoder raises struct.error.
\<close>

theorem erd_output_short_stream:
  assumes "file_schema h \<in> {7, 8, 9}"
    and "num_channels h = Some (int n_chan)"
    and "list_all (valid_sample (file_schema h) n_chan) samples"
    and "length samples < n_samples"
  shows "(drop (erd_start (file_schema h)) filebytes = encode (file_schema h) samples \<longrightarrow>
      (\<exists>out. erd_output h filebytes (int n_samples) = Inr out \<and> length out = n_chan
        \<and> (\<forall>c < n_chan. length (out ! c) = n_samples
              \<and> (\<forall>s < length samples. out ! c ! s
                    = next_value (if s = 0 then 0 else out ! c ! (s - 1)) (snd (samples ! s) ! c))
              \<and> (\<forall>s. length samples \<le> s \<and> s < n_samples \<longrightarrow> out ! c ! s = 0))))
    \<and> (\<forall>s p q. valid_sample (file_schema h) n_chan s
          \<and> encode_sample (file_schema h) s = p @ q \<and> p \<noteq> [] \<and> q \<noteq> []
          \<and> drop (erd_start (file_schema h)) filebytes = encode (file_schema h) samples @ p
        \<longrightarrow> erd_output h filebytes (int n_samples) = Inl StructError)"
proof (intro conjI impI allI)
  assume d: "drop (erd_start (file_schema h)) filebytes = encode (file_schema h) samples"
  then have d': "drop (erd_start (file_schema h)) filebytes = encode (file_schema h) samples @ []"
    by simp
  have le: "length samples \<le> n_samples" using assms(4) by simp
  show "\<exists>out. erd_output h filebytes (int n_samples) = Inr out \<and> length out = n_chan
        \<and> (\<forall>c < n_chan. length (out ! c) = n_samples
              \<and> (\<forall>s < length samples. out ! c ! s
                    = next_value (if s = 0 then 0 else out ! c ! (s - 1)) (snd (samples ! s) ! c))
              \<and> (\<forall>s. length samples \<le> s \<and> s < n_samples \<longrightarrow> out ! c ! s = 0))"
    by (rule erd_output_encoded [OF assms(1) assms(2) assms(3) d' le]) simp
next
  fix s p q
  assume a: "valid_sample (file_schema h) n_chan s
          \<and> encode_sample (file_schema h) s = p @ q \<and> p \<noteq> [] \<and> q \<noteq> []
          \<and> drop (erd_start (file_schema h)) filebytes = encode (file_schema h) samples @ p"
  show "erd_output h filebytes (int n_samples) = Inl StructError"
    by (rule erd_output_truncated [OF assms(1) assms(2) assms(3) _ _ _ _ _ assms(4)])
      (use a in blast)+
qed

theorem erd_output_short_stream_witness:
  "erd_output (example_hdr 7 2 1 0)
      (example_erd 7 2 1 0 (encode 7 [(False, [Narrow 5, Narrow 6])] @ [0, 7])) 2
     = Inl StructError
   \<and> (\<exists>out. erd_output (example_hdr 7 2 1 0)
          (example_erd 7 2 1 0 (encode 7 [(False, [Narrow 5, Narrow 6])])) 2 = Inr out
        \<and> out ! 0 ! 0 = 5 \<and> out ! 0 ! 1 = 0 \<and> out ! 1 ! 0 = 6 \<and> out ! 1 ! 1 = 0)"
proof -
  let ?h = "example_hdr 7 2 1 0"
  let ?samples = "[(False, [Narrow 5, Narrow 6])]"
  let ?f1 = "example_erd 7 2 1 0 (encode 7 ?samples @ [0, 7])"
  let ?f2 = "example_erd 7 2 1 0 (encode 7 ?samples)"
  have v: "list_all (valid_sample (file_schema ?h) 2) ?samples"
    by (simp add: example_7_schema_eq example_7_sample)
  have lt: "length ?samples < 2" by simp
  note T1 = erd_output_short_stream [OF example_7_schema example_7_channels v lt, of ?f1]
  note T2 = erd_output_short_stream [OF example_7_schema example_7_channels v lt, of ?f2]
  have vs: "valid_sample (file_schema ?h) 2 (False, [Narrow 7, Narrow 1])"
    by (simp add: example_7_schema_eq example_7_sample)
  have pq: "encode_sample (file_schema ?h) (False, [Narrow 7, Narrow 1]) = [0, 7] @ [1]"
    by (simp only: example_7_schema_eq example_7_sample)
  have d1: "drop (erd_start (file_schema ?h)) ?f1 = encode (file_schema ?h) ?samples @ [0, 7]"
    using example_7_encoded [of "encode 7 ?samples" "[0, 7]"] by (simp add: example_7_schema_eq)
  have a: "erd_output ?h ?f1 (int 2) = Inl StructError"
    using T1 vs pq d1 by blast
  have d2: "drop (erd_start (file_schema ?h)) ?f2 = encode (file_schema ?h) ?samples"
    using example_7_encoded [of "encode 7 ?samples" "[]"] by (simp add: example_7_schema_eq)
  from T2 d2 obtain out where r: "erd_output ?h ?f2 (int 2) = Inr out"
    and p: "\<forall>c < 2. length (out ! c) = 2
              \<and> (\<forall>s < length ?samples. out ! c ! s
                    = next_value (if s = 0 then 0 else out ! c ! (s - 1)) (snd (?samples ! s) ! c))
              \<and> (\<forall>s. length ?samples \<le> s \<and> s < 2 \<longrightarrow> out ! c ! s = 0)"
    by blast
  have c0: "out ! 0 ! 0 = 5 \<and> out ! 0 ! 1 = 0"
    using p [rule_format, of 0] by (simp add: next_value_def)
  have c1: "out ! 1 ! 0 = 6 \<and> out ! 1 ! 1 = 0"
    using p [rule_format, of 1] by (simp add: next_value_def)
  show ?thesis using a r c0 c1 by simp
qed

section \<open>The table of contents is returned as read\<close>

lemma uint_byte_of_char: "uint (byte_of_char c) = of_char c"
  by (simp add: byte_of_char_def uint_word_of_int)

lemma make_str_name:
  assumes "list_all (\<lambda>c. 0 < (of_char c :: int) \<and> (of_char c :: int) < 128) name"
  shows "make_str (map byte_of_char name @ replicate k 0) = Inr name"
  using assms
proof (induction name)
  case Nil
  show ?case by (simp add: make_str_zeros)
next
  case (Cons c cs)
  have u: "uint (byte_of_char c) = of_char c" by (rule uint_byte_of_char)
  have nz: "byte_of_char c \<noteq> 0"
  proof
    assume "byte_of_char c = 0"
    then have "uint (byte_of_char c) = 0" by simp
    then show False using Cons.prems u by simp
  qed
  show ?case using Cons nz u by simp
qed

declare read_stamps.simps [simp del]

lemma length_name_bytes: "length name \<le> 256 \<Longrightarrow> length (name_bytes name) = 256"
  by (simp add: name_bytes_def)

lemma unpack_str_name:
  assumes "length name \<le> 256"
    and "list_all (\<lambda>c. 0 < (of_char c :: int) \<and> (of_char c :: int) < 128) name"
  shows "unpack_str 256 (name_bytes name) = Inr name"
  using assms length_name_bytes [of name] make_str_name [OF assms(2), of "256 - length name"]
  by (simp add: unpack_str_def unpack_c_n_def name_bytes_def)

lemma read_stamp_encoded:
  assumes "valid_stamp s" and "drop p f = stamp_bytes s @ rest"
  shows "read_stamp f p = Inr (s, p + 272)"
proof -
  have v: "length (segment_name s) \<le> 256"
    "list_all (\<lambda>c. 0 < (of_char c :: int) \<and> (of_char c :: int) < 128) (segment_name s)"
    "int32 (start_stamp s)" "int32 (end_stamp s)" "int32 (sample_num s)" "int32 (sample_span s)"
    using assms(1) by (simp_all add: valid_stamp_def)
  have u0: "unpack_str 256 (name_bytes (segment_name s)) = Inr (segment_name s)"
    by (rule unpack_str_name [OF v(1) v(2)])
  have u1: "unpack_i (le_bytes 4 (start_stamp s)) = Inr (start_stamp s)"
    using v(3) by (intro unpack_i_word) (simp_all add: int32_def)
  have u2: "unpack_i (le_bytes 4 (end_stamp s)) = Inr (end_stamp s)"
    using v(4) by (intro unpack_i_word) (simp_all add: int32_def)
  have u3: "unpack_i (le_bytes 4 (sample_num s)) = Inr (sample_num s)"
    using v(5) by (intro unpack_i_word) (simp_all add: int32_def)
  have u4: "unpack_i (le_bytes 4 (sample_span s)) = Inr (sample_span s)"
    using v(6) by (intro unpack_i_word) (simp_all add: int32_def)
  have l0: "length (name_bytes (segment_name s)) = 256" by (rule length_name_bytes [OF v(1)])
  have d0: "drop p f = name_bytes (segment_name s) @ (le_bytes 4 (start_stamp s)
      @ le_bytes 4 (end_stamp s) @ le_bytes 4 (sample_num s) @ le_bytes 4 (sample_span s) @ rest)"
    using assms(2) by (simp add: stamp_bytes_def)
  have d1: "drop (p + 256) f = le_bytes 4 (start_stamp s) @ (le_bytes 4 (end_stamp s)
      @ le_bytes 4 (sample_num s) @ le_bytes 4 (sample_span s) @ rest)"
    using drop_at [OF d0] l0 by simp
  have d2: "drop (p + 256 + 4) f = le_bytes 4 (end_stamp s)
      @ (le_bytes 4 (sample_num s) @ le_bytes 4 (sample_span s) @ rest)"
    using drop_at [OF d1] by simp
  have d3: "drop (p + 256 + 4 + 4) f = le_bytes 4 (sample_num s) @ (le_bytes 4 (sample_span s) @ rest)"
    using drop_at [OF d2] by simp
  have d4: "drop (p + 256 + 4 + 4 + 4) f = le_bytes 4 (sample_span s) @ rest"
    using drop_at [OF d3] by simp
  have r0: "\<And>unpack k. rd f p 256 unpack k
      = ebind (unpack (name_bytes (segment_name s))) (\<lambda>v. k v (p + 256))"
    by (rule rd_at [OF d0 l0])
  have r1: "\<And>unpack k. rd f (p + 256) 4 unpack k
      = ebind (unpack (le_bytes 4 (start_stamp s))) (\<lambda>v. k v (p + 256 + 4))"
    by (rule rd_at [OF d1]) simp
  have r2: "\<And>unpack k. rd f (p + 256 + 4) 4 unpack k
      = ebind (unpack (le_bytes 4 (end_stamp s))) (\<lambda>v. k v (p + 256 + 4 + 4))"
    by (rule rd_at [OF d2]) simp
  have r3: "\<And>unpack k. rd f (p + 256 + 4 + 4) 4 unpack k
      = ebind (unpack (le_bytes 4 (sample_num s))) (\<lambda>v. k v (p + 256 + 4 + 4 + 4))"
    by (rule rd_at [OF d3]) simp
  have r4: "\<And>unpack k. rd f (p + 256 + 4 + 4 + 4) 4 unpack k
      = ebind (unpack (le_bytes 4 (sample_span s))) (\<lambda>v. k v (p + 256 + 4 + 4 + 4 + 4))"
    by (rule rd_at [OF d4]) simp
  show ?thesis
    unfolding read_stamp_def r0 u0 ebind_Inr r1 u1 r2 u2 r3 u3 r4 u4
    by simp
qed

lemma read_stamps_encoded:
  assumes "list_all valid_stamp stamps" and "drop p f = concat (map stamp_bytes stamps)"
    and "p \<le> length f"
  shows "read_stamps f p = Inr stamps"
  using assms
proof (induction stamps arbitrary: p)
  case Nil
  then have "length f - p = 0" by (metis concat.simps(1) drop_eq_Nil list.simps(8) diff_is_0_eq)
  then have "p = length f" using Nil.prems(3) by simp
  then show ?case by (subst read_stamps.simps) simp
next
  case (Cons s ss)
  have v: "valid_stamp s" and vs: "list_all valid_stamp ss" using Cons.prems(1) by simp_all
  have d: "drop p f = stamp_bytes s @ concat (map stamp_bytes ss)" using Cons.prems(2) by simp
  have ls: "length (stamp_bytes s) = 272"
    using v by (simp add: stamp_bytes_def valid_stamp_def length_name_bytes)
  have "length (drop p f) \<ge> 272" unfolding d using ls by simp
  then have lt: "p + 272 \<le> length f" by simp
  then have ne: "p \<noteq> length f" by simp
  have rs: "read_stamp f p = Inr (s, p + 272)" by (rule read_stamp_encoded [OF v d])
  have d': "drop (p + 272) f = concat (map stamp_bytes ss)" using drop_at [OF d] ls by simp
  have "read_stamps f (p + 272) = Inr ss" by (rule Cons.IH [OF vs d' lt])
  then show ?case using ne rs by (subst read_stamps.simps) simp
qed

lemma read_stc_example:
  assumes "list_all valid_stamp stamps"
  shows "read_stc (example_stc stamps)
    = Inr (\<lparr>next_segment = 0, final = 0, padding = replicate 12 0\<rparr>, stamps)"
proof -
  define f where "f = example_stc stamps"
  have d0: "drop 352 f = replicate 4 0 @ (replicate 4 0 @ replicate 48 0
      @ concat (map stamp_bytes stamps))"
    by (simp add: f_def example_stc_def)
  have d1: "drop 356 f = replicate 4 0 @ (replicate 48 0 @ concat (map stamp_bytes stamps))"
    using drop_at [OF d0] by simp
  have d2: "drop 360 f = replicate 48 0 @ concat (map stamp_bytes stamps)"
    using drop_at [OF d1] by simp
  have d3: "drop 408 f = concat (map stamp_bytes stamps)"
    using drop_at [OF d2] by simp
  have r0: "\<And>unpack k. rd f 352 4 unpack k = ebind (unpack (replicate 4 0)) (\<lambda>v. k v (352 + 4))"
    by (rule rd_at [OF d0]) simp
  have r1: "\<And>unpack k. rd f 356 4 unpack k = ebind (unpack (replicate 4 0)) (\<lambda>v. k v (356 + 4))"
    by (rule rd_at [OF d1]) simp
  have r2: "\<And>unpack k. rd f 360 48 unpack k = ebind (unpack (replicate 48 0)) (\<lambda>v. k v (360 + 48))"
    by (rule rd_at [OF d2]) simp
  have u12: "unpack_i_n 12 (replicate 48 0) = Inr (replicate 12 0)"
    using unpack_i_n_zeros [of 12] by simp
  have le: "408 \<le> length f" by (simp add: f_def example_stc_def)
  have rs: "read_stamps f 408 = Inr stamps" by (rule read_stamps_encoded [OF assms d3 le])
  have "read_stc f = Inr (\<lparr>next_segment = 0, final = 0, padding = replicate 12 0\<rparr>, stamps)"
    unfolding read_stc_def
    by (simp add: r0 r1 r2 unpack_i_zeros u12 rs)
  then show ?thesis by (simp add: f_def)
qed

text \<open>
  C5, as stated: an index whose offsets are not the running totals of the spans is
  refused. A table of two entries of span 10 whose second entry has the offset 7 is
  returned by \<open>_read_stc\<close> as it is.
\<close>

theorem read_stc_inconsistent_returned:
  "read_stc (example_stc
      [\<lparr>segment_name = ''a'', start_stamp = 0, end_stamp = 9, sample_num = 0, sample_span = 10\<rparr>,
       \<lparr>segment_name = ''b'', start_stamp = 10, end_stamp = 19, sample_num = 7, sample_span = 10\<rparr>])
     = Inr (\<lparr>next_segment = 0, final = 0, padding = replicate 12 0\<rparr>,
      [\<lparr>segment_name = ''a'', start_stamp = 0, end_stamp = 9, sample_num = 0, sample_span = 10\<rparr>,
       \<lparr>segment_name = ''b'', start_stamp = 10, end_stamp = 19, sample_num = 7, sample_span = 10\<rparr>])
   \<and> (7::int) \<noteq> 0 + 10"
proof -
  have "list_all valid_stamp
      [\<lparr>segment_name = ''a'', start_stamp = 0, end_stamp = 9, sample_num = 0, sample_span = 10\<rparr>,
       \<lparr>segment_name = ''b'', start_stamp = 10, end_stamp = 19, sample_num = 7, sample_span = 10\<rparr>]"
    by (simp add: valid_stamp_def int32_def)
  from read_stc_example [OF this] show ?thesis by simp
qed

text \<open>
  C5, amended: \<open>_read_stc\<close> compares nothing: for every list of entries, whatever
  their offsets (\<open>sample_num\<close>) and spans (\<open>sample_span\<close>), reading the table that
  holds them returns exactly these entries, in the order of the file.
\<close>

theorem read_stc_returns_records:
  assumes "list_all valid_stamp stamps"
  shows "read_stc (example_stc stamps)
    = Inr (\<lparr>next_segment = 0, final = 0, padding = replicate 12 0\<rparr>, stamps)"
  using assms by (rule read_stc_example)

theorem read_stc_returns_records_witness:
  "read_stc (example_stc
      [\<lparr>segment_name = ''x'', start_stamp = 0, end_stamp = 4, sample_num = 0, sample_span = 5\<rparr>,
       \<lparr>segment_name = ''x_001'', start_stamp = 5, end_stamp = 7, sample_num = 100,
        sample_span = 3\<rparr>])
     = Inr (\<lparr>next_segment = 0, final = 0, padding = replicate 12 0\<rparr>,
      [\<lparr>segment_name = ''x'', start_stamp = 0, end_stamp = 4, sample_num = 0, sample_span = 5\<rparr>,
       \<lparr>segment_name = ''x_001'', start_stamp = 5, end_stamp = 7, sample_num = 100,
        sample_span = 3\<rparr>])"
  by (rule read_stc_returns_records) (simp add: valid_stamp_def int32_def)

section \<open>A range of samples over two segments\<close>

lemma example_stc_read:
  assumes "0 < sp" and "sp < 1000"
  shows "read_stc (example_stc (example_stamps sp))
    = Inr (\<lparr>next_segment = 0, final = 0, padding = replicate 12 0\<rparr>, example_stamps sp)"
  by (rule read_stc_example)
    (use assms in \<open>simp add: example_stamps_def valid_stamp_def int32_def\<close>)

lemma example_files_open:
  "open_file (example_files sp) ''x.stc'' = Inr (example_stc (example_stamps sp))"
  "read_erd_path (example_files sp) ''a.erd'' n
     = read_erd (example_erd 7 2 1 0 [0, 5, 6, 0, 2, 1, 0, 1, 1]) n"
  "read_erd_path (example_files sp) ''b.erd'' n
     = read_erd (example_erd 7 2 1 0 [0, 9, 4, 0, 1, 1, 0, 1, 1]) n"
  by (simp_all add: open_file_def read_erd_path_def example_files_def)

lemma read_erd_a_1:
  "read_erd (example_erd 7 2 1 0 [0, 5, 6, 0, 2, 1, 0, 1, 1]) 1
     = Inr [[8711 / 220500000 * 5], [8711 / 220500000 * 6]]"
proof -
  have o: "erd_output (example_hdr 7 2 1 0) (example_erd 7 2 1 0 [0, 5, 6, 0, 2, 1, 0, 1, 1]) 1
      = Inr [[5], [6]]"
    by (simp add: erd_output_def getkey_def example_hdr_def erd_start_def zeros_def
      erd_samples.simps [of _ _ _ _ 0] erd_samples_done read_sample_def read_deltamask_def
      abs_delta_def unpack_b_def to_signed_def mat_set_def prev_col_def Let_def
      replicate_2)
  show ?thesis
    unfolding read_erd_def example_hdr_7_read ebind_Inr o example_hdr_7_conversion
    by (simp add: apply_factor_def)
qed

lemma read_erd_a_2:
  "read_erd (example_erd 7 2 1 0 [0, 5, 6, 0, 2, 1, 0, 1, 1]) 2
     = Inr [[8711 / 220500000 * 5, 8711 / 220500000 * 7],
            [8711 / 220500000 * 6, 8711 / 220500000 * 7]]"
proof -
  have o: "erd_output (example_hdr 7 2 1 0) (example_erd 7 2 1 0 [0, 5, 6, 0, 2, 1, 0, 1, 1]) 2
      = Inr [[5, 7], [6, 7]]"
    by (simp add: erd_output_def getkey_def example_hdr_def erd_start_def zeros_def
      erd_samples.simps [of _ _ _ _ 0] erd_samples.simps [of _ _ _ _ "Suc 0"]
      erd_samples_done read_sample_def read_deltamask_def
      abs_delta_def unpack_b_def to_signed_def mat_set_def prev_col_def Let_def
      replicate_2)
  show ?thesis
    unfolding read_erd_def example_hdr_7_read ebind_Inr o example_hdr_7_conversion
    by (simp add: apply_factor_def)
qed

lemma read_erd_b_1:
  "read_erd (example_erd 7 2 1 0 [0, 9, 4, 0, 1, 1, 0, 1, 1]) 1
     = Inr [[8711 / 220500000 * 9], [8711 / 220500000 * 4]]"
proof -
  have o: "erd_output (example_hdr 7 2 1 0) (example_erd 7 2 1 0 [0, 9, 4, 0, 1, 1, 0, 1, 1]) 1
      = Inr [[9], [4]]"
    by (simp add: erd_output_def getkey_def example_hdr_def erd_start_def zeros_def
      erd_samples.simps [of _ _ _ _ 0] erd_samples_done read_sample_def read_deltamask_def
      abs_delta_def unpack_b_def to_signed_def mat_set_def prev_col_def Let_def
      replicate_2)
  show ?thesis
    unfolding read_erd_def example_hdr_7_read ebind_Inr o example_hdr_7_conversion
    by (simp add: apply_factor_def)
qed

lemma upt_small: "[0..<3] = [0, 1, 2]" "[0..<2] = [0, 1]" "[1..<2] = [1]" "[0..<1] = [0]"
  by (simp_all add: upt_rec)

text \<open>
  C6 says that a read over two adjacent segments is the concatenation of the two reads
  split at the boundary. For a segment other than the last of the range, \<open>return_dat\<close>
  reads up to \<open>n_sam_rec[rec] + 1\<close> samples, the offset of the segment plus one,
  where the number of samples of the segment is meant. With two segments of two
  samples, the read of samples 0 to 3 of channel 0 returns the first sample of \<open>a\<close>,
  the first sample of \<open>b\<close> and a zero; the reads of 0 to 2 and of 2 to 3 return the
  two samples of \<open>a\<close> and the first sample of \<open>b\<close>.
\<close>

theorem return_dat_two_segments:
  "return_dat (example_files 2) ''x'' [0] 0 3
     = Inr [[8711 / 220500000 * 5, 8711 / 220500000 * 9, 0]]
   \<and> return_dat (example_files 2) ''x'' [0] 0 2
     = Inr [[8711 / 220500000 * 5, 8711 / 220500000 * 7]]
   \<and> return_dat (example_files 2) ''x'' [0] 2 3 = Inr [[8711 / 220500000 * 9]]"
proof -
  have rs: "read_stc (example_stc (example_stamps 2))
    = Inr (\<lparr>next_segment = 0, final = 0, padding = replicate 12 0\<rparr>, example_stamps 2)"
    by (rule example_stc_read) simp_all
  have stc: "open_file (example_files 2) (''x'' @ ''.stc'') = Inr (example_stc (example_stamps 2))"
    by (simp add: example_files_open)
  have r03: "return_dat (example_files 2) ''x'' [0] 0 3
     = Inr [[8711 / 220500000 * 5, 8711 / 220500000 * 9, 0]]"
    unfolding return_dat_def stc rs ebind_Inr
    by (simp add: example_stamps_def cumsum_def last_where_def upt_small example_files_open
        read_erd_a_1 read_erd_b_1 index_chan_slice_def py_slice_def
        slice_bound_def assign_cols_def Let_def)
  have r02: "return_dat (example_files 2) ''x'' [0] 0 2
     = Inr [[8711 / 220500000 * 5, 8711 / 220500000 * 7]]"
    unfolding return_dat_def stc rs ebind_Inr
    by (simp add: example_stamps_def cumsum_def last_where_def upt_small example_files_open
        read_erd_a_2 index_chan_slice_def py_slice_def
        slice_bound_def assign_cols_def Let_def)
  have r23: "return_dat (example_files 2) ''x'' [0] 2 3 = Inr [[8711 / 220500000 * 9]]"
    unfolding return_dat_def stc rs ebind_Inr
    by (simp add: example_stamps_def cumsum_def last_where_def upt_small example_files_open
        read_erd_b_1 index_chan_slice_def py_slice_def
        slice_bound_def assign_cols_def Let_def)
  show ?thesis using r03 r02 r23 by simp
qed

text \<open>
  C8 says that a read of \<open>begin\<close> to \<open>end\<close> returns \<open>end - begin\<close> samples for every
  channel asked for. By the same expression, with two segments of three samples the
  read of samples 2 to 4 of channel 0 takes an empty slice of the one sample read from
  \<open>a\<close> and assigns it to one column of the result, which raises ValueError.
\<close>

theorem return_dat_raises:
  "return_dat (example_files 3) ''x'' [0] 2 4 = Inl ValueError"
proof -
  have rs: "read_stc (example_stc (example_stamps 3))
    = Inr (\<lparr>next_segment = 0, final = 0, padding = replicate 12 0\<rparr>, example_stamps 3)"
    by (rule example_stc_read) simp_all
  have stc: "open_file (example_files 3) (''x'' @ ''.stc'') = Inr (example_stc (example_stamps 3))"
    by (simp add: example_files_open)
  show ?thesis
    unfolding return_dat_def stc rs ebind_Inr
    by (simp add: example_stamps_def cumsum_def last_where_def upt_small example_files_open
        read_erd_a_1 index_chan_slice_def py_slice_def
        slice_bound_def assign_cols_def Let_def)
qed

end
